theory Spec2Isabelle
  imports Main "HOL-Library.Word"
begin

unbundle bit_operations_syntax

section \<open>The byte source: \<open>bufio.Reader\<close> over the underlying reader\<close>

text \<open>
  Every \<open>Decoder\<close> of one decode call shares one \<open>bufio.Reader\<close> (\<open>dec.buf\<close>) and,
  when the source is an \<open>io.ReadSeeker\<close>, the seeker itself (\<open>dec.rs\<close>); \<open>Next\<close> copies
  both pointers into every child. The shared object is the record \<open>reader\<close>:
  \<open>seekable\<close> is \<open>dec.rs != nil\<close>, \<open>seek_fails\<close> says that \<open>rs.Seek\<close> returns an error,
  \<open>buffered\<close> are the bytes held in the bufio buffer (\<open>buf.Buffered()\<close> is its length),
  \<open>source\<close> are the bytes the underlying reader has not delivered yet. The bytes the
  decoder has still to see are \<open>buffered @ source\<close>.

  The underlying reader is the one of a file or of an in-memory reader: a read into a
  buffer of \<open>k\<close> bytes delivers \<open>min k\<close> of what is left, and the end-of-input error
  once nothing is left. A forward relative seek on a regular file or an in-memory
  reader succeeds, also beyond the end, after which reads find nothing; on an
  \<open>*os.File\<close> that is a pipe or a terminal, which \<open>NewDecoder\<close> takes for a seeker like
  any other file, it fails (\<open>ErrSeek\<close>) and moves nothing. The buffer has the size
  \<open>bufio.NewReader\<close> gives it.
\<close>

type_synonym byte = "8 word"

datatype error =
    ErrFormat
  | EOF
  | ErrBufferFull
  | ErrSeek
  | SliceBoundsPanic
  | ErrNotStruct
  | ErrUnsupportedPointer
  | ErrUnsupportedSlice
  | ErrUnsupportedType
  | ErrTagSyntax

record reader =
  seekable :: bool
  seek_fails :: bool
  buffered :: "byte list"
  source :: "byte list"

definition bufSize :: nat where
  "bufSize = 4096"

definition unread :: "reader \<Rightarrow> byte list" where
  "unread r = buffered r @ source r"

text \<open>\<open>bufio.Reader.fill\<close>: one read of the underlying reader into the free space.\<close>

definition fill :: "reader \<Rightarrow> reader" where
  "fill r =
     (let k = bufSize - length (buffered r)
      in r\<lparr>buffered := buffered r @ take k (source r), source := drop k (source r)\<rparr>)"

definition ReadByte :: "reader \<Rightarrow> (error + byte) \<times> reader" where
  "ReadByte r =
     (let r' = (if buffered r = [] then fill r else r)
      in case buffered r' of
           [] \<Rightarrow> (Inl EOF, r')
         | b # bs \<Rightarrow> (Inr b, r'\<lparr>buffered := bs\<rparr>))"

definition Peek :: "nat \<Rightarrow> reader \<Rightarrow> (error + byte list) \<times> reader" where
  "Peek n r =
     (let r' = (if length (buffered r) < n \<and> length (buffered r) < bufSize then fill r else r)
      in if length (buffered r') < n
         then (Inl (if bufSize < n then ErrBufferFull else EOF), r')
         else (Inr (take n (buffered r')), r'))"

text \<open>
  \<open>bufio.Reader.Discard\<close>: drop what is buffered, refill, until \<open>n\<close> bytes are gone or a
  refill finds nothing.
\<close>

function Discard :: "nat \<Rightarrow> reader \<Rightarrow> error option \<times> reader" where
  "Discard n r =
     (if n = 0 then (None, r)
      else
        let r1 = (if buffered r = [] then fill r else r);
            skip = min (length (buffered r1)) n;
            r2 = r1\<lparr>buffered := drop skip (buffered r1)\<rparr>
        in if n - skip = 0 then (None, r2)
           else if buffered r1 = [] then (Some EOF, r2)
           else Discard (n - skip) r2)"
  by pat_completeness auto
termination
  by (relation "measure (\<lambda>(n, r). n)") (auto simp: min_def split: if_splits)

declare Discard.simps [simp del]

text \<open>
  \<open>bufio.Reader.Read(p)\<close> with \<open>len(p) = n > 0\<close>: at most one read of the underlying
  reader, straight into \<open>p\<close> when the buffer is empty and \<open>p\<close> is at least as large as
  the buffer. The bytes copied into \<open>p\<close> are returned; their number is Go's \<open>c\<close>.
\<close>

definition bufRead :: "nat \<Rightarrow> reader \<Rightarrow> (error + byte list) \<times> reader" where
  "bufRead n r =
     (if buffered r = [] then
        (if bufSize \<le> n then
           (if source r = [] then (Inl EOF, r)
            else (Inr (take n (source r)), r\<lparr>source := drop n (source r)\<rparr>))
         else
           let r' = fill r
           in if buffered r' = [] then (Inl EOF, r')
              else (Inr (take n (buffered r')), r'\<lparr>buffered := drop n (buffered r')\<rparr>))
      else (Inr (take n (buffered r)), r\<lparr>buffered := drop n (buffered r)\<rparr>))"

text \<open>\<open>rs.Seek(k, 1)\<close> that succeeds, followed by \<open>buf.Reset(rs)\<close>.\<close>

definition SeekReset :: "nat \<Rightarrow> reader \<Rightarrow> reader" where
  "SeekReset k r = r\<lparr>buffered := [], source := drop k (source r)\<rparr>"

section \<open>The element cursor\<close>

text \<open>
  \<open>type Decoder struct { rs; buf; len, size, id int64; elem *Decoder }\<close>. The fields
  \<open>rs\<close> and \<open>buf\<close> are the shared \<open>reader\<close>; the rest is the datatype below (the
  selectors carry the prefix \<open>dec_\<close>: \<open>size\<close> and \<open>id\<close> are constants of HOL).
  The \<open>int64\<close> fields are integers: a header value is below \<open>2 ^ 57\<close>, and \<open>len\<close> only
  moves by the number of bytes consumed.
\<close>

datatype decoder =
  Decoder (dec_len: int) (dec_size: int) (dec_id: int) (dec_elem: "decoder option")

definition set_len :: "int \<Rightarrow> decoder \<Rightarrow> decoder" where
  "set_len l d = Decoder l (dec_size d) (dec_id d) (dec_elem d)"

definition set_elem :: "decoder option \<Rightarrow> decoder \<Rightarrow> decoder" where
  "set_elem e d = Decoder (dec_len d) (dec_size d) (dec_id d) e"

text \<open>\<open>NewDecoder\<close>: \<open>fsize\<close> is the file's size for an \<open>*os.File\<close>, \<open>0\<close> otherwise.\<close>

definition NewDecoder :: "int \<Rightarrow> decoder" where
  "NewDecoder fsize = Decoder fsize fsize 0 None"

text \<open>
  The part of \<open>Skip\<close> after the pending child has been skipped: nothing for
  \<open>len \<le> 0\<close>, the seek when the source is a seeker and more than the buffer is to go
  (its error is returned before anything is changed), the discard otherwise.
\<close>

definition Skip_own :: "reader \<Rightarrow> decoder \<Rightarrow> error option \<times> reader \<times> decoder" where
  "Skip_own r d =
     (if dec_len d \<le> 0 then (None, r, d)
      else
        let n = int (length (buffered r))
        in if seekable r \<and> dec_len d > n
           then (if seek_fails r then (Some ErrSeek, r, d)
                 else (None, SeekReset (nat (dec_len d - n)) r, set_len 0 d))
           else (case Discard (nat (dec_len d)) r of
                   (Some e, r') \<Rightarrow> (Some e, r', d)
                 | (None, r') \<Rightarrow> (None, r', set_len 0 d)))"

text \<open>\<open>Skip\<close> with the private \<open>skip\<close> inlined: the open child first, then the cursor itself.\<close>

fun Skip :: "reader \<Rightarrow> decoder \<Rightarrow> error option \<times> reader \<times> decoder" where
  "Skip r (Decoder l s i None) = Skip_own r (Decoder l s i None)"
| "Skip r (Decoder l s i (Some e)) =
     (case Skip r e of
        (Some err, r', e') \<Rightarrow> (Some err, r', Decoder l s i (Some e'))
      | (None, r', e') \<Rightarrow> Skip_own r' (Decoder l s i (Some e')))"

text \<open>The private \<open>skip\<close>: skip the open child, if there is one.\<close>

definition skip :: "reader \<Rightarrow> decoder \<Rightarrow> error option \<times> reader \<times> decoder" where
  "skip r d =
     (case dec_elem d of
        None \<Rightarrow> (None, r, d)
      | Some e \<Rightarrow> (case Skip r e of (err, r', e') \<Rightarrow> (err, r', set_elem (Some e') d)))"

subsection \<open>The vint codec\<close>

definition mask_tab :: "byte list" where
  "mask_tab = [0x80, 0x40, 0x20, 0x10, 0x8, 0x4, 0x2, 0x1]"

definition rest_tab :: "byte list" where
  "rest_tab = [0xff, 0x7f, 0x3f, 0x1f, 0xf, 0x7, 0x3, 0x1, 0x0]"

text \<open>
  \<open>for n, bit = range mask { if m&bit != 0 { v = int64(m & rest[n+off]); break } }\<close>
  over the index-value pairs still to visit; \<open>(v, n)\<close> are the variables as the loop
  leaves them. Every call has \<open>off\<close> 0 or 1, so \<open>n + off\<close> is within \<open>rest\<close>.
\<close>

fun range_mask :: "byte \<Rightarrow> nat \<Rightarrow> (nat \<times> byte) list \<Rightarrow> int \<times> nat \<Rightarrow> int \<times> nat" where
  "range_mask m off [] (v, n) = (v, n)"
| "range_mask m off ((i, b) # todo) (v, n) =
     (if m AND b \<noteq> 0 then (uint (m AND rest_tab ! (i + off)), i)
      else range_mask m off todo (v, i))"

text \<open>
  \<open>for _, it := range b { v = (v << 8) | int64(it) }\<close> on \<open>int64\<close>: \<open>int64\<close> is the
  value a 64-bit two's complement register holds.
\<close>

definition int64 :: "int \<Rightarrow> int" where
  "int64 x = signed_take_bit 63 x"

definition shift_in :: "byte list \<Rightarrow> int \<Rightarrow> int" where
  "shift_in b v = fold (\<lambda>it v. int64 (push_bit 8 v OR uint it)) b v"

definition readVint :: "nat \<Rightarrow> reader \<Rightarrow> decoder \<Rightarrow> (error + int \<times> nat) \<times> reader \<times> decoder" where
  "readVint off r d =
     (case skip r d of
        (Some e, r1, d1) \<Rightarrow> (Inl e, r1, d1)
      | (None, r1, d1) \<Rightarrow>
          if dec_len d1 < 1 \<and> 0 < dec_size d1 then (Inl EOF, r1, d1)
          else (case ReadByte r1 of
             (Inl e, r2) \<Rightarrow> (Inl e, r2, d1)
           | (Inr m, r2) \<Rightarrow>
               let d2 = set_len (dec_len d1 - 1) d1;
                   (v, n) = range_mask m off (enumerate 0 mask_tab) (0, 0)
               in if n > 0 then
                    (if dec_len d2 < int n \<and> 0 < dec_size d2 then (Inl EOF, r2, d2)
                     else (case Peek n r2 of
                        (Inl e, r3) \<Rightarrow> (Inl e, r3, d2)
                      | (Inr b, r3) \<Rightarrow>
                          (case Discard n r3 of
                             (Some e, r4) \<Rightarrow> (Inl e, r4, d2)
                           | (None, r4) \<Rightarrow>
                               (Inr (shift_in b v, n), r4, set_len (dec_len d2 - int n) d2))))
                  else (Inr (v, n), r2, d2)))"

subsection \<open>Sibling iteration\<close>

definition Next ::
  "reader \<Rightarrow> decoder \<Rightarrow> (error + int \<times> decoder option) \<times> reader \<times> decoder" where
  "Next r d =
     (case skip r d of
        (Some e, r0, d0) \<Rightarrow> (Inl e, r0, d0)
      | (None, r0, d0) \<Rightarrow>
     (case readVint 0 r0 d0 of
        (Inl e, r1, d1) \<Rightarrow> (Inl e, r1, d1)
      | (Inr (i, _), r1, d1) \<Rightarrow>
     (case readVint 1 r1 d1 of
        (Inl e, r2, d2) \<Rightarrow> (Inl e, r2, d2)
      | (Inr (sz, _), r2, d2) \<Rightarrow>
          if i = 0 \<or> sz < 0 then (Inl ErrFormat, r2, d2)
          else if dec_size d2 < sz \<and> 0 < dec_size d2 then (Inl ErrFormat, r2, d2)
          else if sz = 0 then (Inr (i, None), r2, d2)
          else
            let v = Decoder sz sz i None
            in (Inr (i, Some v), r2, set_elem (Some v) (set_len (dec_len d2 - sz) d2)))))"

subsection \<open>Bounded raw reads\<close>

text \<open>
  The loop of \<open>Read\<close>: \<open>want\<close> is \<open>len(b)\<close>, \<open>got\<close> the bytes copied into \<open>b\<close> so far
  (Go's \<open>n\<close> is their number).
\<close>

function Read_loop ::
  "nat \<Rightarrow> byte list \<Rightarrow> reader \<Rightarrow> decoder \<Rightarrow> error option \<times> byte list \<times> reader \<times> decoder" where
  "Read_loop want got r d =
     (if want > 0 then
        (case bufRead want r of
           (Inl e, r') \<Rightarrow> (Some e, got, r', d)
         | (Inr bs, r') \<Rightarrow>
             if length bs > 0
             then Read_loop (want - length bs) (got @ bs) r'
                    (set_len (dec_len d - int (length bs)) d)
             else (Some EOF, got, r', d))
      else (None, got, r, d))"
  by pat_completeness auto
termination
  by (relation "measure (\<lambda>(want, got, r, d). want)") auto

declare Read_loop.simps [simp del]

text \<open>
  \<open>Read(b)\<close> with \<open>len(b) = m\<close>. The reslice \<open>b[:dec.len]\<close> panics for a negative
  \<open>dec.len\<close>.
\<close>

definition Read ::
  "nat \<Rightarrow> reader \<Rightarrow> decoder \<Rightarrow> error option \<times> byte list \<times> reader \<times> decoder" where
  "Read m r d =
     (case skip r d of
        (Some e, r1, d1) \<Rightarrow> (Some e, [], r1, d1)
      | (None, r1, d1) \<Rightarrow>
          if dec_len d1 < int m \<and> 0 < dec_size d1
          then (if dec_len d1 < 0 then (Some SliceBoundsPanic, [], r1, d1)
                else Read_loop (nat (dec_len d1)) [] r1 d1)
          else Read_loop m [] r1 d1)"

subsection \<open>Primitive readers\<close>

definition maxBufferSize :: int where
  "maxBufferSize = 2 ^ 20"

definition ReadInt :: "reader \<Rightarrow> decoder \<Rightarrow> (error + int) \<times> reader \<times> decoder" where
  "ReadInt r d =
     (case skip r d of
        (Some e, r1, d1) \<Rightarrow> (Inl e, r1, d1)
      | (None, r1, d1) \<Rightarrow>
          if dec_len d1 < 1 \<or> dec_len d1 > 8 then (Inl ErrFormat, r1, d1)
          else
            let n = nat (dec_len d1)
            in (case Peek n r1 of
                  (Inl e, r2) \<Rightarrow> (Inl e, r2, d1)
                | (Inr b, r2) \<Rightarrow>
                    (case Discard n r2 of
                       (Some e, r3) \<Rightarrow> (Inl e, r3, d1)
                     | (None, r3) \<Rightarrow> (Inr (shift_in b 0), r3, set_len 0 d1))))"

text \<open>
  A float is kept as the bit pattern it is made from: \<open>math.Float32frombits\<close> of a
  big-endian \<open>uint32\<close> (then widened), or \<open>math.Float64frombits\<close> of a \<open>uint64\<close>.
\<close>

datatype float_bits = Float32frombits "32 word" | Float64frombits "64 word"

definition ReadFloat :: "reader \<Rightarrow> decoder \<Rightarrow> (error + float_bits) \<times> reader \<times> decoder" where
  "ReadFloat r d =
     (case skip r d of
        (Some e, r1, d1) \<Rightarrow> (Inl e, r1, d1)
      | (None, r1, d1) \<Rightarrow>
          if dec_len d1 = 4 \<or> dec_len d1 = 8 then
            (case Peek (nat (dec_len d1)) r1 of
               (Inl e, r2) \<Rightarrow> (Inl e, r2, d1)
             | (Inr b, r2) \<Rightarrow>
                 (case Discard (nat (dec_len d1)) r2 of
                    (Some e, r3) \<Rightarrow> (Inl e, r3, d1)
                  | (None, r3) \<Rightarrow>
                      (Inr (if dec_len d1 = 4 then Float32frombits (word_rcat b)
                            else Float64frombits (word_rcat b)), r3, set_len 0 d1)))
          else (Inl ErrFormat, r1, d1))"

definition ReadBool :: "reader \<Rightarrow> decoder \<Rightarrow> (error + bool) \<times> reader \<times> decoder" where
  "ReadBool r d =
     (case ReadInt r d of
        (Inl e, r1, d1) \<Rightarrow> (Inl e, r1, d1)
      | (Inr v, r1, d1) \<Rightarrow> (Inr (v \<noteq> 0), r1, d1))"

text \<open>A \<open>time.Time\<close> is its offset in nanoseconds from \<open>absTime\<close>, 2001-01-01T00:00:00 UTC.\<close>

definition ReadTime :: "reader \<Rightarrow> decoder \<Rightarrow> (error + int) \<times> reader \<times> decoder" where
  "ReadTime r d =
     (case ReadInt r d of
        (Inl e, r1, d1) \<Rightarrow> (Inl e, r1, d1)
      | (Inr v, r1, d1) \<Rightarrow> (Inr v, r1, d1))"

definition ReadBytes :: "reader \<Rightarrow> decoder \<Rightarrow> (error + byte list) \<times> reader \<times> decoder" where
  "ReadBytes r d =
     (case skip r d of
        (Some e, r1, d1) \<Rightarrow> (Inl e, r1, d1)
      | (None, r1, d1) \<Rightarrow>
          if dec_len d1 < 0 \<or> maxBufferSize < dec_len d1 then (Inl ErrFormat, r1, d1)
          else (case Read (nat (dec_len d1)) r1 d1 of
                  (Some e, b, r2, d2) \<Rightarrow> (Inl e, r2, d2)
                | (None, b, r2, d2) \<Rightarrow> (Inr b, r2, d2)))"

text \<open>A Go string is its bytes.\<close>

definition ReadString :: "reader \<Rightarrow> decoder \<Rightarrow> (error + byte list) \<times> reader \<times> decoder" where
  "ReadString r d =
     (case ReadBytes r d of
        (Inl e, r1, d1) \<Rightarrow> (Inl e, r1, d1)
      | (Inr b, r1, d1) \<Rightarrow> (Inr b, r1, d1))"

section \<open>The schema-driven decoder\<close>

text \<open>
  The decoder walks a Go value by reflection. A value carries what the walk asks of it:
  its kind, for a pointer and a slice the element type (to allocate a new element), for
  a struct its fields in order, each with the \<open>ebml\<close> tag of its declaration.

  A tag as \<open>newStructInfo\<close> reads it: \<open>NoTag\<close> for a field it passes over (unexported,
  no tag, the tag \<open>-\<close>, embedded), \<open>BadTag\<close> for a tag one of whose ids is not a
  hexadecimal number, \<open>Tag id seq\<close> for the first id and the ids after each \<open>>\<close>.
\<close>

datatype tag = NoTag | BadTag | Tag int "int list"

datatype intkind = KInt | KInt8 | KInt16 | KInt32 | KInt64

datatype uintkind = KUint | KUint8 | KUint16 | KUint32 | KUint64 | KUintptr

text \<open>
  A \<open>float32\<close> field holds the bits of its value, a \<open>float64\<close> field the float as
  \<open>ReadFloat\<close> returns it. \<open>TTime\<close> is \<open>time.Time\<close>; \<open>TBlock\<close> is \<open>matroska.Block\<close>, the one type of the
  repository whose pointer implements \<open>Unmarshaler\<close>; \<open>TOther\<close> is any kind the decoder
  has no case for. A slice is the list of its elements (nil and empty are not told
  apart), a string its bytes. A type is a finite tree: a type that contains itself
  (\<open>SimpleTag\<close> holds a slice of \<open>*SimpleTag\<close>) is written unrolled as deep as a stream
  needs it.
\<close>

datatype gtype =
    TInt intkind
  | TUint uintkind
  | TBool
  | TFloat32
  | TFloat64
  | TString
  | TTime
  | TBlock
  | TStruct "(tag \<times> gtype) list"
  | TPtr gtype
  | TSlice gtype
  | TOther

datatype gvalue =
    VInt intkind int
  | VUint uintkind int
  | VBool bool
  | VFloat32 "32 word"
  | VFloat64 float_bits
  | VString "byte list"
  | VTime "int option"
  | VBlock "byte list"
  | VStruct "(tag \<times> gvalue) list"
  | VPtr gtype "gvalue option"
  | VSlice gtype "gvalue list"
  | VOther

text \<open>\<open>reflect.New(t).Elem()\<close>: the zero value of a type.\<close>

fun zero :: "gtype \<Rightarrow> gvalue" and zero_fields :: "(tag \<times> gtype) list \<Rightarrow> (tag \<times> gvalue) list" where
  "zero (TInt k) = VInt k 0"
| "zero (TUint k) = VUint k 0"
| "zero TBool = VBool False"
| "zero TFloat32 = VFloat32 0"
| "zero TFloat64 = VFloat64 (Float64frombits 0)"
| "zero TString = VString []"
| "zero TTime = VTime None"
| "zero TBlock = VBlock []"
| "zero (TStruct fts) = VStruct (zero_fields fts)"
| "zero (TPtr t) = VPtr t None"
| "zero (TSlice t) = VSlice t []"
| "zero TOther = VOther"
| "zero_fields [] = []"
| "zero_fields ((tg, t) # fts) = (tg, zero t) # zero_fields fts"

text \<open>\<open>e.Kind() == reflect.Struct\<close>\<close>

fun is_struct :: "gtype \<Rightarrow> bool" where
  "is_struct (TStruct fts) = True"
| "is_struct TTime = True"
| "is_struct TBlock = True"
| "is_struct t = False"

text \<open>\<open>SetInt\<close> and \<open>SetUint(uint64(i))\<close> store the value truncated to the field's width.\<close>

fun int_bits :: "intkind \<Rightarrow> nat" where
  "int_bits KInt = 64"
| "int_bits KInt8 = 8"
| "int_bits KInt16 = 16"
| "int_bits KInt32 = 32"
| "int_bits KInt64 = 64"

fun uint_bits :: "uintkind \<Rightarrow> nat" where
  "uint_bits KUint = 64"
| "uint_bits KUint8 = 8"
| "uint_bits KUint16 = 16"
| "uint_bits KUint32 = 32"
| "uint_bits KUint64 = 64"
| "uint_bits KUintptr = 64"

definition SetInt :: "intkind \<Rightarrow> int \<Rightarrow> gvalue" where
  "SetInt k i = VInt k (signed_take_bit (int_bits k - 1) i)"

definition SetUint :: "uintkind \<Rightarrow> int \<Rightarrow> gvalue" where
  "SetUint k i = VUint k (take_bit (uint_bits k) i)"

text \<open>
  \<open>SetFloat\<close> on a \<open>float32\<close> field stores \<open>float32(x)\<close>, the conversion of IEEE 754 on
  the bit patterns: the nearest \<open>float32\<close>, ties to the even mantissa, a subnormal or
  zero for a value too small, infinity for one too large; a NaN comes out quiet, with
  the high 22 bits of its payload. A float widened from a \<open>float32\<close> converts back to
  the \<open>float32\<close> it was (a signalling NaN was made quiet by the widening).
  \<open>round_even m s\<close> is \<open>m / 2 ^ s\<close> rounded to the nearest integer, ties to even.
\<close>

definition round_even :: "int \<Rightarrow> nat \<Rightarrow> int" where
  "round_even m s =
     (let q = m div 2 ^ s; rm = m mod 2 ^ s; half = 2 ^ s div 2
      in if half < rm \<or> (rm = half \<and> odd q \<and> 0 < s) then q + 1 else q)"

definition float32 :: "float_bits \<Rightarrow> 32 word" where
  "float32 f =
     (case f of
        Float32frombits w \<Rightarrow>
          if take_bit 8 (drop_bit 23 w) = 0xFF \<and> take_bit 23 w \<noteq> 0 then w OR 0x400000 else w
      | Float64frombits w \<Rightarrow>
          let sign = push_bit 31 (ucast (drop_bit 63 w)) :: 32 word;
              e = unat (take_bit 11 (drop_bit 52 w));
              m = uint (take_bit 52 w)
          in if e = 2047 then
               (if m = 0 then sign OR 0x7F800000
                else sign OR 0x7FC00000 OR word_of_int (m div 2 ^ 29))
             else
               let M = (if e = 0 then m else m + 2 ^ 52);
                   E = max e 1;
                   bits = (if 897 \<le> E then int (E - 897) * 2 ^ 23 + round_even M 29
                           else round_even M (926 - E))
               in sign OR (if 0x7F800000 \<le> bits then 0x7F800000 else word_of_int bits))"

subsection \<open>The schema resolver\<close>

record fieldInfo =
  fi_id :: int
  fi_index :: nat
  fi_seq :: "int list"

text \<open>
  The loop of \<open>newStructInfo\<close> over the fields with their indices; \<open>ids\<close> is the map
  \<open>c.ids\<close>, in which a later field with the same first id replaces an earlier one.
\<close>

fun structInfo_fields ::
  "(nat \<times> tag) list \<Rightarrow> (int \<rightharpoonup> fieldInfo) \<Rightarrow> error + (int \<rightharpoonup> fieldInfo)" where
  "structInfo_fields [] ids = Inr ids"
| "structInfo_fields ((i, NoTag) # fs) ids = structInfo_fields fs ids"
| "structInfo_fields ((i, BadTag) # fs) ids = Inl ErrTagSyntax"
| "structInfo_fields ((i, Tag x seq) # fs) ids =
     structInfo_fields fs (ids(x \<mapsto> \<lparr>fi_id = x, fi_index = i, fi_seq = seq\<rparr>))"

definition newStructInfo :: "(tag \<times> gvalue) list \<Rightarrow> error + (int \<rightharpoonup> fieldInfo)" where
  "newStructInfo fs = structInfo_fields (enumerate 0 (map fst fs)) Map.empty"

text \<open>\<open>c.v.Field(i)\<close> read and written.\<close>

definition Field :: "(tag \<times> gvalue) list \<Rightarrow> nat \<Rightarrow> gvalue" where
  "Field fs i = snd (fs ! i)"

definition set_Field :: "(tag \<times> gvalue) list \<Rightarrow> nat \<Rightarrow> gvalue \<Rightarrow> (tag \<times> gvalue) list" where
  "set_Field fs i v = fs[i := (fst (fs ! i), v)]"

subsection \<open>The recursive field decoder\<close>

text \<open>
  \<open>Block.UnmarshalEBML\<close> reached through \<open>dec.Decode(u)\<close>, for the block \<open>v\<close>: the
  pending child is skipped, then \<open>r.Data, err = dec.ReadBytes()\<close>, which stores the
  (nil) result also when \<open>ReadBytes\<close> fails.
\<close>

definition Decode_Block ::
  "gvalue \<Rightarrow> reader \<Rightarrow> decoder \<Rightarrow> error option \<times> gvalue \<times> reader \<times> decoder" where
  "Decode_Block v r d =
     (case skip r d of
        (Some e, r1, d1) \<Rightarrow> (Some e, v, r1, d1)
      | (None, r1, d1) \<Rightarrow>
          (case ReadBytes r1 d1 of
             (Inl e, r2, d2) \<Rightarrow> (Some e, VBlock [], r2, d2)
           | (Inr b, r2, d2) \<Rightarrow> (None, VBlock b, r2, d2)))"

text \<open>
  The cases of \<open>fieldInfo.decode\<close> that call nothing of the decoder again: the kinds
  read by one primitive reader, and the kinds with no case. On an error the value is
  left as it was.
\<close>

definition decode_scalar :: "gvalue \<Rightarrow> reader \<Rightarrow> decoder \<Rightarrow> error option \<times> gvalue \<times> reader \<times> decoder" where
  "decode_scalar v r d =
     (case v of
        VTime t \<Rightarrow>
          (case ReadTime r d of
             (Inl e, r1, d1) \<Rightarrow> (Some e, v, r1, d1)
           | (Inr t', r1, d1) \<Rightarrow> (None, VTime (Some t'), r1, d1))
      | VInt kd i \<Rightarrow>
          (case ReadInt r d of
             (Inl e, r1, d1) \<Rightarrow> (Some e, v, r1, d1)
           | (Inr i', r1, d1) \<Rightarrow> (None, SetInt kd i', r1, d1))
      | VUint kd i \<Rightarrow>
          (case ReadInt r d of
             (Inl e, r1, d1) \<Rightarrow> (Some e, v, r1, d1)
           | (Inr i', r1, d1) \<Rightarrow> (None, SetUint kd i', r1, d1))
      | VBool b \<Rightarrow>
          (case ReadBool r d of
             (Inl e, r1, d1) \<Rightarrow> (Some e, v, r1, d1)
           | (Inr b', r1, d1) \<Rightarrow> (None, VBool b', r1, d1))
      | VFloat32 f \<Rightarrow>
          (case ReadFloat r d of
             (Inl e, r1, d1) \<Rightarrow> (Some e, v, r1, d1)
           | (Inr f', r1, d1) \<Rightarrow> (None, VFloat32 (float32 f'), r1, d1))
      | VFloat64 f \<Rightarrow>
          (case ReadFloat r d of
             (Inl e, r1, d1) \<Rightarrow> (Some e, v, r1, d1)
           | (Inr f', r1, d1) \<Rightarrow> (None, VFloat64 f', r1, d1))
      | VString s \<Rightarrow>
          (case ReadString r d of
             (Inl e, r1, d1) \<Rightarrow> (Some e, v, r1, d1)
           | (Inr s', r1, d1) \<Rightarrow> (None, VString s', r1, d1))
      | _ \<Rightarrow> (Some ErrUnsupportedType, v, r, d))"

text \<open>
  The slice cases that do not recurse: \<open>[]byte\<close> is replaced by the payload
  (\<open>SetBytes\<close>), \<open>[]int64\<close> grows by the integer read, any other element kind but a
  pointer is refused.
\<close>

definition decode_slice ::
  "gtype \<Rightarrow> gvalue list \<Rightarrow> reader \<Rightarrow> decoder \<Rightarrow> error option \<times> gvalue \<times> reader \<times> decoder" where
  "decode_slice t vs r d =
     (case t of
        TUint KUint8 \<Rightarrow>
          (case ReadBytes r d of
             (Inl e, r1, d1) \<Rightarrow> (Some e, VSlice t vs, r1, d1)
           | (Inr b, r1, d1) \<Rightarrow>
               (None, VSlice t (map (\<lambda>x. VUint KUint8 (uint x)) b), r1, d1))
      | TInt KInt64 \<Rightarrow>
          (case ReadInt r d of
             (Inl e, r1, d1) \<Rightarrow> (Some e, VSlice t vs, r1, d1)
           | (Inr i, r1, d1) \<Rightarrow> (None, VSlice t (vs @ [VInt KInt64 i]), r1, d1))
      | _ \<Rightarrow> (Some ErrUnsupportedSlice, VSlice t vs, r, d))"

text \<open>
  The four mutually recursive functions of the decoder; \<open>decode\<close> hands the kinds
  that end the recursion to \<open>decode_scalar\<close> and \<open>decode_slice\<close>. Each takes a bound on the
  number of nested calls and loop iterations still allowed and returns \<open>None\<close> when
  the bound is used up; a result is the error (if any), the value as the call leaves
  it, the reader, and the cursor the call was given. A child cursor returned by
  \<open>Next\<close> is the object \<open>dec.elem\<close> points to: what a call does to it is written back
  into the parent.
\<close>

function (sequential) UnmarshalEBML ::
    "nat \<Rightarrow> (tag \<times> gvalue) list \<Rightarrow> reader \<Rightarrow> decoder \<Rightarrow>
       (error option \<times> (tag \<times> gvalue) list \<times> reader \<times> decoder) option"
  and typeCodec_loop ::
    "nat \<Rightarrow> (int \<rightharpoonup> fieldInfo) \<Rightarrow> (tag \<times> gvalue) list \<Rightarrow> reader \<Rightarrow> decoder \<Rightarrow>
       (error option \<times> (tag \<times> gvalue) list \<times> reader \<times> decoder) option"
  and decodeSeq ::
    "nat \<Rightarrow> int list \<Rightarrow> gvalue \<Rightarrow> reader \<Rightarrow> decoder \<Rightarrow>
       (error option \<times> gvalue \<times> reader \<times> decoder) option"
  and decode ::
    "nat \<Rightarrow> gvalue \<Rightarrow> reader \<Rightarrow> decoder \<Rightarrow>
       (error option \<times> gvalue \<times> reader \<times> decoder) option"
where
  "UnmarshalEBML 0 fs r d = None"
| "UnmarshalEBML (Suc k) fs r d =
     (case newStructInfo fs of
        Inl e \<Rightarrow> Some (Some e, fs, r, d)
      | Inr ids \<Rightarrow> typeCodec_loop k ids fs r d)"
| "typeCodec_loop 0 ids fs r d = None"
| "typeCodec_loop (Suc k) ids fs r d =
     (case Next r d of
        (Inl e, r1, d1) \<Rightarrow> Some (if e = EOF then None else Some e, fs, r1, d1)
      | (Inr (x, None), r1, d1) \<Rightarrow> typeCodec_loop k ids fs r1 d1
      | (Inr (x, Some el), r1, d1) \<Rightarrow>
          (case ids x of
             Some f \<Rightarrow>
               (case (if fi_seq f \<noteq> [] then decodeSeq k (fi_seq f) (Field fs (fi_index f)) r1 el
                      else decode k (Field fs (fi_index f)) r1 el) of
                  None \<Rightarrow> None
                | Some (Some e, v, r2, el') \<Rightarrow>
                    Some (Some e, set_Field fs (fi_index f) v, r2, set_elem (Some el') d1)
                | Some (None, v, r2, el') \<Rightarrow>
                    typeCodec_loop k ids (set_Field fs (fi_index f) v) r2 (set_elem (Some el') d1))
           | None \<Rightarrow>
               (case Skip r1 el of
                  (Some e, r2, el') \<Rightarrow> Some (Some e, fs, r2, set_elem (Some el') d1)
                | (None, r2, el') \<Rightarrow> typeCodec_loop k ids fs r2 (set_elem (Some el') d1))))"
| "decodeSeq 0 seq v r d = None"
| "decodeSeq (Suc k) seq v r d =
     (case Next r d of
        (Inl e, r1, d1) \<Rightarrow> Some (if e = EOF then None else Some e, v, r1, d1)
      | (Inr (x, None), r1, d1) \<Rightarrow> decodeSeq k seq v r1 d1
      | (Inr (x, Some el), r1, d1) \<Rightarrow>
          (if x = hd seq then
             (case (if length seq = 1 then decode k v r1 el
                    else decodeSeq k (tl seq) v r1 el) of
                None \<Rightarrow> None
              | Some (Some e, v', r2, el') \<Rightarrow> Some (Some e, v', r2, set_elem (Some el') d1)
              | Some (None, v', r2, el') \<Rightarrow> decodeSeq k seq v' r2 (set_elem (Some el') d1))
           else
             (case Skip r1 el of
                (Some e, r2, el') \<Rightarrow> Some (Some e, v, r2, set_elem (Some el') d1)
              | (None, r2, el') \<Rightarrow> decodeSeq k seq v r2 (set_elem (Some el') d1))))"
| "decode 0 v r d = None"
| "decode (Suc k) v r d =
     (case v of
        VBlock b \<Rightarrow>
          (case UnmarshalEBML k [] r d of
             None \<Rightarrow> None
           | Some (e, fs', r1, d1) \<Rightarrow> Some (e, v, r1, d1))
      | VStruct fs \<Rightarrow>
          (case UnmarshalEBML k fs r d of
             None \<Rightarrow> None
           | Some (e, fs', r1, d1) \<Rightarrow> Some (e, VStruct fs', r1, d1))
      | VPtr t p \<Rightarrow>
          if \<not> is_struct t then Some (Some ErrUnsupportedPointer, v, r, d)
          else if t = TBlock then
            (case Decode_Block (case p of None \<Rightarrow> zero t | Some x \<Rightarrow> x) r d of
               (e, b, r1, d1) \<Rightarrow> Some (e, VPtr t (Some b), r1, d1))
          else
            (case decode k (case p of None \<Rightarrow> zero t | Some x \<Rightarrow> x) r d of
               None \<Rightarrow> None
             | Some (e, x', r1, d1) \<Rightarrow> Some (e, VPtr t (Some x'), r1, d1))
      | VSlice t vs \<Rightarrow>
          (case t of
             TPtr te \<Rightarrow>
               if te = TBlock then
                 (case Decode_Block (zero te) r d of
                    (e, b, r1, d1) \<Rightarrow> Some (e, VSlice t (vs @ [VPtr te (Some b)]), r1, d1))
               else
                 (case decode k (zero te) r d of
                    None \<Rightarrow> None
                  | Some (e, x', r1, d1) \<Rightarrow> Some (e, VSlice t (vs @ [VPtr te (Some x')]), r1, d1))
           | _ \<Rightarrow> Some (decode_slice t vs r d))
      | _ \<Rightarrow> Some (decode_scalar v r d))"

  by pat_completeness auto

termination
  by (relation "measure (\<lambda>x. case x of
          Inl (Inl (k, _)) \<Rightarrow> k | Inl (Inr (k, _)) \<Rightarrow> k
        | Inr (Inl (k, _)) \<Rightarrow> k | Inr (Inr (k, _)) \<Rightarrow> k)") auto

section \<open>Vocabulary of the statements\<close>

text \<open>
  A cursor is \<open>settled\<close> when neither it nor any cursor below it has bytes left to
  skip, and \<open>idle\<close> when its open child (if any) is settled: the private \<open>skip\<close> then
  does nothing. \<open>pending\<close> is the number of bytes \<open>Skip\<close> has to get rid of, the open
  children first; \<open>settle\<close> is the cursor once that is done.
\<close>

fun settled :: "decoder \<Rightarrow> bool" where
  "settled (Decoder l s i None) = (l \<le> 0)"
| "settled (Decoder l s i (Some e)) = (l \<le> 0 \<and> settled e)"

definition idle :: "decoder \<Rightarrow> bool" where
  "idle d = (case dec_elem d of None \<Rightarrow> True | Some e \<Rightarrow> settled e)"

fun pending :: "decoder \<Rightarrow> nat" where
  "pending (Decoder l s i None) = nat l"
| "pending (Decoder l s i (Some e)) = pending e + nat l"

fun settle :: "decoder \<Rightarrow> decoder" where
  "settle (Decoder l s i None) = Decoder (min l 0) s i None"
| "settle (Decoder l s i (Some e)) = Decoder (min l 0) s i (Some (settle e))"

text \<open>
  The leading byte of a vint of width \<open>w\<close> has its highest set bit at position \<open>w\<close>,
  counted from the most significant bit; \<open>be_val\<close> is the big-endian value of a byte
  sequence. \<open>scan_ok k\<close> says what the marker scan makes of the leading byte \<open>k\<close>.
\<close>

definition leading_width :: "byte \<Rightarrow> nat \<Rightarrow> bool" where
  "leading_width m w = (1 \<le> w \<and> w \<le> 8 \<and> 2 ^ (8 - w) \<le> unat m \<and> unat m < 2 ^ (9 - w))"

fun be_val :: "byte list \<Rightarrow> int" where
  "be_val [] = 0"
| "be_val (b # bs) = uint b * 256 ^ length bs + be_val bs"

definition scan_ok :: "nat \<Rightarrow> bool" where
  "scan_ok k = (\<forall>w\<in>set [1..<9]. 2 ^ (8 - w) \<le> k \<and> k < 2 ^ (9 - w) \<longrightarrow>
      range_mask (of_nat k) 0 (enumerate 0 mask_tab) (0, 0) = (int k, w - 1) \<and>
      range_mask (of_nat k) 1 (enumerate 0 mask_tab) (0, 0) = (int k - 2 ^ (8 - w), w - 1))"

text \<open>The reader after a vint of width \<open>w\<close> has been read from it.\<close>

definition vint_reader :: "nat \<Rightarrow> reader \<Rightarrow> reader" where
  "vint_reader w r =
     (if w = 1 then snd (ReadByte r)
      else snd (Discard (w - 1) (snd (Peek (w - 1) (snd (ReadByte r))))))"

text \<open>
  A forward-only source holding the given bytes, nothing buffered yet, and the same
  bytes in a source that seeks (a regular file, a \<open>bytes.Reader\<close>).
\<close>

definition from_bytes :: "byte list \<Rightarrow> reader" where
  "from_bytes bs = \<lparr>seekable = False, seek_fails = False, buffered = [], source = bs\<rparr>"

definition from_file :: "byte list \<Rightarrow> reader" where
  "from_file bs = \<lparr>seekable = True, seek_fails = False, buffered = [], source = bs\<rparr>"

text \<open>
  The leading byte of a vint of width \<open>w\<close> with its marker bit cleared, and what the
  marker scan makes of it for each leading byte \<open>k\<close>.
\<close>

definition clear_marker :: "nat \<Rightarrow> byte \<Rightarrow> byte" where
  "clear_marker w m = m AND NOT (mask_tab ! (w - 1))"

definition marker_ok :: "nat \<Rightarrow> bool" where
  "marker_ok k = (\<forall>w\<in>set [1..<9]. 2 ^ (8 - w) \<le> k \<and> k < 2 ^ (9 - w) \<longrightarrow>
      uint (clear_marker w (of_nat k)) = int k - 2 ^ (8 - w))"

text \<open>
  The residual bits of the leading byte as the specification words them: for an id the
  marker bit cleared, for a size the marker bit and the next bit below it cleared.
\<close>

definition spec_id_residual :: "nat \<Rightarrow> byte \<Rightarrow> byte" where
  "spec_id_residual w m = m AND NOT (mask_tab ! (w - 1))"

definition spec_size_residual :: "nat \<Rightarrow> byte \<Rightarrow> byte" where
  "spec_size_residual w m =
     m AND NOT (mask_tab ! (w - 1)) AND NOT (drop_bit 1 (mask_tab ! (w - 1)))"

text \<open>The \<open>n\<close> bytes of a number below \<open>256 ^ n\<close>, most significant first.\<close>

fun be_bytes :: "nat \<Rightarrow> int \<Rightarrow> byte list" where
  "be_bytes 0 x = []"
| "be_bytes (Suc n) x = word_of_int (x div 256 ^ n) # be_bytes n (x mod 256 ^ n)"

text \<open>
  Modelled from the spec: the repository has no vint encoder (\<open>Encoder.Encode\<close> returns
  \<open>nil\<close> and writes nothing). The reference encoding of a value \<open>x\<close> below
  \<open>2 ^ (7 * w)\<close> at width \<open>w\<close> is the one of EBML: \<open>w\<close> bytes, most significant first,
  holding \<open>x\<close> in their low \<open>7 * w\<close> bits and the marker bit \<open>2 ^ (7 * w)\<close> above them.
\<close>

definition encode_vint :: "nat \<Rightarrow> int \<Rightarrow> byte list" where
  "encode_vint w x = be_bytes w (x + 2 ^ (7 * w))"

text \<open>
  The operations a caller has on one cursor, each reduced to its outcome (the error, if
  any) and the state it leaves; \<open>run_ops\<close> runs a sequence of them as long as each
  returns without error.
\<close>

datatype op =
    OpNext | OpRead nat | OpSkip | OpReadInt | OpReadFloat | OpReadBool | OpReadTime
  | OpReadString | OpReadBytes

definition failed :: "'e + 'a \<Rightarrow> 'e option" where
  "failed x = (case x of Inl e \<Rightarrow> Some e | Inr v \<Rightarrow> None)"

fun apply_op :: "op \<Rightarrow> reader \<Rightarrow> decoder \<Rightarrow> error option \<times> reader \<times> decoder" where
  "apply_op OpNext r d = (case Next r d of (x, r', d') \<Rightarrow> (failed x, r', d'))"
| "apply_op (OpRead m) r d = (case Read m r d of (e, b, r', d') \<Rightarrow> (e, r', d'))"
| "apply_op OpSkip r d = Skip r d"
| "apply_op OpReadInt r d = (case ReadInt r d of (x, r', d') \<Rightarrow> (failed x, r', d'))"
| "apply_op OpReadFloat r d = (case ReadFloat r d of (x, r', d') \<Rightarrow> (failed x, r', d'))"
| "apply_op OpReadBool r d = (case ReadBool r d of (x, r', d') \<Rightarrow> (failed x, r', d'))"
| "apply_op OpReadTime r d = (case ReadTime r d of (x, r', d') \<Rightarrow> (failed x, r', d'))"
| "apply_op OpReadString r d = (case ReadString r d of (x, r', d') \<Rightarrow> (failed x, r', d'))"
| "apply_op OpReadBytes r d = (case ReadBytes r d of (x, r', d') \<Rightarrow> (failed x, r', d'))"

fun run_ops :: "op list \<Rightarrow> reader \<Rightarrow> decoder \<Rightarrow> (reader \<times> decoder) option" where
  "run_ops [] r d = Some (r, d)"
| "run_ops (x # xs) r d =
     (case apply_op x r d of
        (Some e, r', d') \<Rightarrow> None
      | (None, r', d') \<Rightarrow> run_ops xs r' d')"




definition outcome :: "(error option \<times> 'v \<times> reader \<times> decoder) option \<Rightarrow> (error option \<times> 'v) option" where
  "outcome res = map_option (\<lambda>(e, v, r, d). (e, v)) res"




definition T_type :: gtype where
  "T_type = TStruct [(Tag 0x82 [], TSlice (TUint KUint8))]"

definition Q_fields :: "(tag \<times> gvalue) list" where
  "Q_fields = [(Tag 0x81 [], VPtr T_type None), (Tag 0x83 [], VInt KInt64 0)]"

text \<open>
  The shape of a reader is all of it but the values of its bytes: whether it is a
  seeker, whether its seek fails, and how many bytes are buffered and how many are
  still in the source.
\<close>

definition shape :: "reader \<Rightarrow> bool \<times> bool \<times> nat \<times> nat" where
  "shape r = (seekable r, seek_fails r, length (buffered r), length (source r))"

definition same_shape :: "reader \<Rightarrow> reader \<Rightarrow> bool" where
  "same_shape r r' = (seekable r = seekable r' \<and> seek_fails r = seek_fails r' \<and>
     length (buffered r) = length (buffered r') \<and> length (source r) = length (source r'))"












section \<open>The reader\<close>

lemma unread_fill [simp]: "unread (fill r) = unread r"
  by (simp add: unread_def fill_def Let_def)

lemma seekable_fill [simp]: "seekable (fill r) = seekable r"
  by (simp add: fill_def Let_def)

lemma seek_fails_fill [simp]: "seek_fails (fill r) = seek_fails r"
  by (simp add: fill_def Let_def)

lemma buffered_fill_Nil: "buffered r = [] \<Longrightarrow> buffered (fill r) = [] \<longleftrightarrow> source r = []"
  by (simp add: fill_def Let_def bufSize_def)

lemma ReadByte_Cons:
  assumes "unread r = b # bs"
  shows "fst (ReadByte r) = Inr b" "unread (snd (ReadByte r)) = bs"
    "seekable (snd (ReadByte r)) = seekable r"
proof -
  let ?r = "if buffered r = [] then fill r else r"
  have u: "unread ?r = b # bs" using assms by simp
  have ne: "buffered ?r \<noteq> []"
    using assms by (auto simp: buffered_fill_Nil unread_def)
  then obtain c cs where c: "buffered ?r = c # cs" by (cases "buffered ?r") auto
  with u have "c = b" "cs @ source ?r = bs" by (auto simp: unread_def)
  then show "fst (ReadByte r) = Inr b" "unread (snd (ReadByte r)) = bs"
    "seekable (snd (ReadByte r)) = seekable r"
    using c by (auto simp: ReadByte_def Let_def unread_def)
qed

lemma ReadByte_Nil:
  assumes "unread r = []"
  shows "fst (ReadByte r) = Inl EOF" "unread (snd (ReadByte r)) = []"
    "seekable (snd (ReadByte r)) = seekable r"
  using assms by (auto simp: ReadByte_def Let_def unread_def fill_def)

lemma Peek_enough:
  assumes "n \<le> length (unread r)" "n \<le> bufSize"
  shows "fst (Peek n r) = Inr (take n (unread r))" "unread (snd (Peek n r)) = unread r"
    "seekable (snd (Peek n r)) = seekable r" "n \<le> length (buffered (snd (Peek n r)))"
  using assms by (auto simp: Peek_def Let_def unread_def fill_def min_def)

lemma Peek_short:
  assumes "length (unread r) < n"
  shows "\<exists>e. fst (Peek n r) = Inl e" "unread (snd (Peek n r)) = unread r"
    "seekable (snd (Peek n r)) = seekable r"
  using assms by (auto simp: Peek_def Let_def unread_def fill_def min_def)

lemma seek_fails_ReadByte [simp]: "seek_fails (snd (ReadByte r)) = seek_fails r"
  by (simp add: ReadByte_def Let_def split: list.splits)

lemma seek_fails_Peek [simp]: "seek_fails (snd (Peek n r)) = seek_fails r"
  by (simp add: Peek_def Let_def)

lemma unread_drop_buffered:
  "k \<le> length (buffered r) \<Longrightarrow> unread (r\<lparr>buffered := drop k (buffered r)\<rparr>) = drop k (unread r)"
  by (simp add: unread_def)

lemma Discard_0 [simp]: "Discard 0 r = (None, r)"
  by (simp add: Discard.simps)

lemma Discard_within:
  assumes "n \<noteq> 0" "n \<le> length (buffered (if buffered r = [] then fill r else r))"
  shows "Discard n r =
    (None, (if buffered r = [] then fill r else r)
       \<lparr>buffered := drop n (buffered (if buffered r = [] then fill r else r))\<rparr>)"
  using assms by (subst Discard.simps) (simp add: Let_def min_def)

lemma Discard_dry:
  assumes "n \<noteq> 0" "buffered (if buffered r = [] then fill r else r) = []"
  shows "Discard n r = (Some EOF, (if buffered r = [] then fill r else r)\<lparr>buffered := []\<rparr>)"
  using assms by (subst Discard.simps) (simp add: Let_def min_def)

lemma Discard_beyond:
  assumes "length (buffered (if buffered r = [] then fill r else r)) < n"
    "buffered (if buffered r = [] then fill r else r) \<noteq> []"
  shows "Discard n r =
    Discard (n - length (buffered (if buffered r = [] then fill r else r)))
      ((if buffered r = [] then fill r else r)\<lparr>buffered := []\<rparr>)"
  using assms by (subst Discard.simps) (simp add: Let_def min_def)

lemma unread_buffered_Nil: "unread (r\<lparr>buffered := []\<rparr>) = drop (length (buffered r)) (unread r)"
  by (simp add: unread_def)

lemma Discard_enough:
  "n \<le> length (unread r) \<Longrightarrow>
     fst (Discard n r) = None \<and> unread (snd (Discard n r)) = drop n (unread r) \<and>
     seekable (snd (Discard n r)) = seekable r"
proof (induction n arbitrary: r rule: less_induct)
  case (less n)
  let ?r1 = "if buffered r = [] then fill r else r"
  have u1: "unread ?r1 = unread r" and s1: "seekable ?r1 = seekable r" by simp_all
  show ?case
  proof (cases "n = 0")
    case True then show ?thesis by simp
  next
    case n0: False
    show ?thesis
    proof (cases "n \<le> length (buffered ?r1)")
      case True
      show ?thesis
        using Discard_within[OF n0 True] unread_drop_buffered[OF True] u1 s1 by simp
    next
      case False
      then have lt: "length (buffered ?r1) < n" by simp
      have "unread r \<noteq> []" using less.prems n0 by auto
      then have ne: "buffered ?r1 \<noteq> []"
        by (cases "buffered r = []") (auto simp: unread_def buffered_fill_Nil)
      let ?r2 = "?r1\<lparr>buffered := []\<rparr>"
      let ?n = "n - length (buffered ?r1)"
      have u2: "unread ?r2 = drop (length (buffered ?r1)) (unread r)"
        using unread_buffered_Nil[of ?r1] u1 by simp
      have "?n < n" using ne lt by simp
      moreover have "?n \<le> length (unread ?r2)" using less.prems u2 by simp
      ultimately have IH: "fst (Discard ?n ?r2) = None \<and>
          unread (snd (Discard ?n ?r2)) = drop ?n (unread ?r2) \<and>
          seekable (snd (Discard ?n ?r2)) = seekable ?r2"
        using less.IH by blast
      have "drop ?n (unread ?r2) = drop n (unread r)" using u2 lt by simp
      then show ?thesis using IH Discard_beyond[OF lt ne] s1 by simp
    qed
  qed
qed

lemma Discard_short:
  "length (unread r) < n \<Longrightarrow>
     fst (Discard n r) = Some EOF \<and> unread (snd (Discard n r)) = [] \<and>
     seekable (snd (Discard n r)) = seekable r"
proof (induction n arbitrary: r rule: less_induct)
  case (less n)
  let ?r1 = "if buffered r = [] then fill r else r"
  have u1: "unread ?r1 = unread r" and s1: "seekable ?r1 = seekable r" by simp_all
  have n0: "n \<noteq> 0" using less.prems by simp
  let ?r2 = "?r1\<lparr>buffered := []\<rparr>"
  have u2: "unread ?r2 = drop (length (buffered ?r1)) (unread r)"
    using unread_buffered_Nil[of ?r1] u1 by simp
  have "length (buffered ?r1) \<le> length (unread ?r1)" by (simp add: unread_def)
  then have lt: "length (buffered ?r1) < n" using less.prems u1 by simp
  show ?case
  proof (cases "buffered ?r1 = []")
    case True
    then have "unread r = []"
      by (cases "buffered r = []") (auto simp: unread_def buffered_fill_Nil)
    then have "unread ?r2 = []" using u2 by simp
    then show ?thesis using Discard_dry[OF n0 True] s1 by simp
  next
    case ne: False
    let ?n = "n - length (buffered ?r1)"
    have "?n < n" using ne lt by simp
    moreover have "length (unread ?r2) < ?n" using less.prems u2 lt by simp
    ultimately have IH: "fst (Discard ?n ?r2) = Some EOF \<and>
          unread (snd (Discard ?n ?r2)) = [] \<and>
          seekable (snd (Discard ?n ?r2)) = seekable ?r2"
      using less.IH by blast
    then show ?thesis using Discard_beyond[OF lt ne] s1 by simp
  qed
qed

lemma seekable_Discard [simp]: "seekable (snd (Discard n r)) = seekable r"
proof (cases "n \<le> length (unread r)")
  case True then show ?thesis using Discard_enough by simp
next
  case False then show ?thesis using Discard_short by simp
qed

lemma seek_fails_Discard [simp]: "seek_fails (snd (Discard n r)) = seek_fails r"
proof (induction n arbitrary: r rule: less_induct)
  case (less n)
  let ?r1 = "if buffered r = [] then fill r else r"
  have s1: "seek_fails ?r1 = seek_fails r" by simp
  show ?case
  proof (cases "n = 0")
    case True then show ?thesis by simp
  next
    case n0: False
    show ?thesis
    proof (cases "n \<le> length (buffered ?r1)")
      case True
      show ?thesis using Discard_within[OF n0 True] s1 by simp
    next
      case False
      then have lt: "length (buffered ?r1) < n" by simp
      show ?thesis
      proof (cases "buffered ?r1 = []")
        case True
        show ?thesis using Discard_dry[OF n0 True] s1 by simp
      next
        case ne: False
        have "n - length (buffered ?r1) < n" using ne lt by simp
        from less.IH[OF this, of "?r1\<lparr>buffered := []\<rparr>"]
        show ?thesis using Discard_beyond[OF lt ne] s1 by simp
      qed
    qed
  qed
qed

section \<open>Skipping\<close>

lemma set_len_simps [simp]:
  "dec_len (set_len l d) = l" "dec_size (set_len l d) = dec_size d"
  "dec_id (set_len l d) = dec_id d" "dec_elem (set_len l d) = dec_elem d"
  by (simp_all add: set_len_def)

lemma set_elem_simps [simp]:
  "dec_len (set_elem e d) = dec_len d" "dec_size (set_elem e d) = dec_size d"
  "dec_id (set_elem e d) = dec_id d" "dec_elem (set_elem e d) = e"
  by (simp_all add: set_elem_def)

lemma unread_SeekReset:
  "length (buffered r) \<le> n \<Longrightarrow> unread (SeekReset (n - length (buffered r)) r) = drop n (unread r)"
  by (simp add: SeekReset_def unread_def)

lemma seekable_Discard': "Discard n r = (e, r') \<Longrightarrow> seekable r' = seekable r"
  using seekable_Discard[of n r] by simp

lemma seek_fails_Discard': "Discard n r = (e, r') \<Longrightarrow> seek_fails r' = seek_fails r"
  using seek_fails_Discard[of n r] by simp

lemma seek_fails_vint_reader [simp]: "seek_fails (vint_reader w r) = seek_fails r"
  by (simp add: vint_reader_def)

lemma Skip_own_fields [simp]:
  "dec_size (snd (snd (Skip_own r d))) = dec_size d"
  "dec_id (snd (snd (Skip_own r d))) = dec_id d"
  "dec_elem (snd (snd (Skip_own r d))) = dec_elem d"
  "seekable (fst (snd (Skip_own r d))) = seekable r"
  "seek_fails (fst (snd (Skip_own r d))) = seek_fails r"
  by (auto simp: Skip_own_def Let_def SeekReset_def dest: seekable_Discard' seek_fails_Discard'
        split: prod.splits option.splits)

lemma Skip_own_len:
  "dec_len (snd (snd (Skip_own r d))) =
     (if fst (Skip_own r d) = None then min (dec_len d) 0 else dec_len d)"
  by (auto simp: Skip_own_def Let_def split: prod.splits option.splits)

lemma Skip_own_enough:
  assumes "nat (dec_len d) \<le> length (unread r)" and nf: "\<not> seek_fails r"
  shows "fst (Skip_own r d) = None"
    "unread (fst (snd (Skip_own r d))) = drop (nat (dec_len d)) (unread r)"
    "snd (snd (Skip_own r d)) = set_len (min (dec_len d) 0) d"
proof -
  show "fst (Skip_own r d) = None"
    using Discard_enough[OF assms(1)] nf
    by (auto simp: Skip_own_def Let_def split: prod.splits option.splits)
  show "unread (fst (snd (Skip_own r d))) = drop (nat (dec_len d)) (unread r)"
  proof (cases "0 < dec_len d \<and> seekable r \<and> dec_len d > int (length (buffered r))")
    case True
    then have "length (buffered r) \<le> nat (dec_len d)" by linarith
    from unread_SeekReset[OF this] True nf show ?thesis
      by (simp add: Skip_own_def Let_def nat_diff_distrib)
  next
    case False
    then show ?thesis using Discard_enough[OF assms(1)]
      by (auto simp: Skip_own_def Let_def split: prod.splits option.splits)
  qed
  show "snd (snd (Skip_own r d)) = set_len (min (dec_len d) 0) d"
    using Discard_enough[OF assms(1)] nf
    by (cases d) (auto simp: Skip_own_def Let_def set_len_def min_def split: prod.splits option.splits)
qed

lemma Skip_fields [simp]:
  "dec_size (snd (snd (Skip r d))) = dec_size d"
  "dec_id (snd (snd (Skip r d))) = dec_id d"
proof (induction r d rule: Skip.induct)
  case (1 r l s i)
  { case 1 show ?case by simp next case 2 show ?case by simp }
next
  case (2 r l s i e)
  { case 1 show ?case by (simp split: prod.splits option.splits)
  next case 2 show ?case by (simp split: prod.splits option.splits) }
qed

lemma seekable_Skip [simp]: "seekable (fst (snd (Skip r d))) = seekable r"
proof (induction r d rule: Skip.induct)
  case (1 r l s i) show ?case by simp
next
  case (2 r l s i e)
  show ?case
  proof (cases "Skip r e")
    case (fields err r' e')
    then have "seekable r' = seekable r" using 2 by simp
    then show ?thesis using fields
      Skip_own_fields(4)[of r' "Decoder l s i (Some e')"] by (cases err) auto
  qed
qed

lemma seek_fails_Skip [simp]: "seek_fails (fst (snd (Skip r d))) = seek_fails r"
proof (induction r d rule: Skip.induct)
  case (1 r l s i) show ?case by simp
next
  case (2 r l s i e)
  show ?case
  proof (cases "Skip r e")
    case (fields err r' e')
    then have "seek_fails r' = seek_fails r" using 2 by simp
    then show ?thesis using fields
      Skip_own_fields(5)[of r' "Decoder l s i (Some e')"] by (cases err) auto
  qed
qed

lemma Skip_len:
  "dec_len (snd (snd (Skip r d))) =
     (if fst (Skip r d) = None then min (dec_len d) 0 else dec_len d)"
proof (induction r d rule: Skip.induct)
  case (1 r l s i) show ?case using Skip_own_len[of r "Decoder l s i None"] by simp
next
  case (2 r l s i e)
  show ?case
  proof (cases "Skip r e")
    case (fields err r' e')
    show ?thesis
    proof (cases err)
      case None
      then show ?thesis using fields Skip_own_len[of r' "Decoder l s i (Some e')"] by simp
    next
      case (Some a)
      then show ?thesis using fields by simp
    qed
  qed
qed

lemma Skip_settled: "settled d \<Longrightarrow> Skip r d = (None, r, d)"
  by (induction r d rule: Skip.induct) (auto simp: Skip_own_def)

lemma Skip_success_settled: "fst (Skip r d) = None \<Longrightarrow> settled (snd (snd (Skip r d)))"
proof (induction r d rule: Skip.induct)
  case (1 r l s i)
  then show ?case
    using Skip_own_len[of r "Decoder l s i None"] Skip_own_fields(3)[of r "Decoder l s i None"]
    by (cases "snd (snd (Skip_own r (Decoder l s i None)))") (auto simp: min_def split: if_splits)
next
  case (2 r l s i e)
  show ?case
  proof (cases "Skip r e")
    case (fields err r' e')
    with 2 have err: "err = None" by (cases err) auto
    with 2 fields have se: "settled e'" by simp
    let ?d = "Decoder l s i (Some e')"
    have ok: "fst (Skip_own r' ?d) = None" using 2(2) fields err by simp
    show ?thesis using fields err se ok
      Skip_own_len[of r' ?d] Skip_own_fields(3)[of r' ?d]
      by (cases "snd (snd (Skip_own r' ?d))") (auto simp: min_def split: if_splits)
  qed
qed

lemma skip_idle: "idle d \<Longrightarrow> skip r d = (None, r, d)"
  by (cases d) (auto simp: idle_def skip_def Skip_settled set_elem_def split: option.splits)

lemma skip_fields [simp]:
  "dec_len (snd (snd (skip r d))) = dec_len d"
  "dec_size (snd (snd (skip r d))) = dec_size d"
  "dec_id (snd (snd (skip r d))) = dec_id d"
  "seekable (fst (snd (skip r d))) = seekable r"
  "seek_fails (fst (snd (skip r d))) = seek_fails r"
proof -
  show "dec_len (snd (snd (skip r d))) = dec_len d"
    "dec_size (snd (snd (skip r d))) = dec_size d"
    "dec_id (snd (snd (skip r d))) = dec_id d"
    by (auto simp: skip_def split: option.splits prod.splits)
  show "seekable (fst (snd (skip r d))) = seekable r"
  proof (cases "dec_elem d")
    case None then show ?thesis by (simp add: skip_def)
  next
    case (Some e)
    then show ?thesis using seekable_Skip[of r e]
      by (cases "Skip r e") (simp add: skip_def)
  qed
  show "seek_fails (fst (snd (skip r d))) = seek_fails r"
  proof (cases "dec_elem d")
    case None then show ?thesis by (simp add: skip_def)
  next
    case (Some e)
    then show ?thesis using seek_fails_Skip[of r e]
      by (cases "Skip r e") (simp add: skip_def)
  qed
qed

lemma skip_success_idle: "fst (skip r d) = None \<Longrightarrow> idle (snd (snd (skip r d)))"
proof (cases "dec_elem d")
  case None
  then show ?thesis by (simp add: skip_def idle_def)
next
  case (Some e)
  assume ok: "fst (skip r d) = None"
  obtain err r' e' where f: "Skip r e = (err, r', e')" by (cases "Skip r e") auto
  with ok Some have "err = None" by (simp add: skip_def)
  with f Skip_success_settled[of r e] have "settled e'" by simp
  then show ?thesis using Some f by (simp add: skip_def idle_def)
qed

lemma Skip_enough:
  "pending d \<le> length (unread r) \<Longrightarrow> \<not> seek_fails r \<Longrightarrow>
     fst (Skip r d) = None \<and>
     unread (fst (snd (Skip r d))) = drop (pending d) (unread r) \<and>
     snd (snd (Skip r d)) = settle d"
proof (induction r d rule: Skip.induct)
  case (1 r l s i)
  then show ?case using Skip_own_enough[of "Decoder l s i None" r]
    by (simp add: set_len_def min.commute)
next
  case (2 r l s i e)
  obtain err r' e' where f: "Skip r e = (err, r', e')" by (cases "Skip r e") auto
  from 2 f have e: "err = None" "unread r' = drop (pending e) (unread r)" "e' = settle e"
    by auto
  have nf: "\<not> seek_fails r'" using seek_fails_Skip[of r e] f 2(3) by simp
  let ?d = "Decoder l s i (Some e')"
  have "nat (dec_len ?d) \<le> length (unread r')" using 2(2) e by simp
  from Skip_own_enough[OF this nf] f e show ?case
    by (simp add: set_len_def min.commute add.commute)
qed

lemma pending_split:
  "pending d = (case dec_elem d of None \<Rightarrow> 0 | Some e \<Rightarrow> pending e) + nat (dec_len d)"
  by (cases d; cases "dec_elem d") auto

lemma skip_enough:
  assumes "pending d - nat (dec_len d) \<le> length (unread r)" and "\<not> seek_fails r"
  shows "fst (skip r d) = None"
    "unread (fst (snd (skip r d))) = drop (pending d - nat (dec_len d)) (unread r)"
    "snd (snd (skip r d)) = set_elem (map_option settle (dec_elem d)) d"
proof (atomize (full), cases "dec_elem d")
  case None
  then show "fst (skip r d) = None \<and>
      unread (fst (snd (skip r d))) = drop (pending d - nat (dec_len d)) (unread r) \<and>
      snd (snd (skip r d)) = set_elem (map_option settle (dec_elem d)) d"
    using pending_split[of d] by (cases d) (simp add: skip_def set_elem_def)
next
  case (Some e)
  then have p: "pending d - nat (dec_len d) = pending e" using pending_split[of d] by simp
  then have "pending e \<le> length (unread r)" using assms(1) by simp
  from Skip_enough[OF this assms(2)] Some p
  show "fst (skip r d) = None \<and>
      unread (fst (snd (skip r d))) = drop (pending d - nat (dec_len d)) (unread r) \<and>
      snd (snd (skip r d)) = set_elem (map_option settle (dec_elem d)) d"
    by (cases "Skip r e") (simp add: skip_def)
qed

section \<open>The marker scan and the value of a vint\<close>

lemma scan_all: "\<forall>k\<in>set [0..<256]. scan_ok k"
  by code_simp

lemma range_mask_leading:
  assumes "leading_width m w"
  shows "range_mask m 0 (enumerate 0 mask_tab) (0, 0) = (uint m, w - 1)"
    "range_mask m 1 (enumerate 0 mask_tab) (0, 0) = (uint m - 2 ^ (8 - w), w - 1)"
proof -
  have "unat m < 256" using unsigned_less[of m] by simp
  then have "scan_ok (unat m)" using scan_all by simp
  moreover have "w \<in> set [1..<9]" using assms by (auto simp: leading_width_def)
  ultimately have
    "range_mask (of_nat (unat m)) 0 (enumerate 0 mask_tab) (0, 0) = (int (unat m), w - 1) \<and>
     range_mask (of_nat (unat m)) 1 (enumerate 0 mask_tab) (0, 0) = (int (unat m) - 2 ^ (8 - w), w - 1)"
    using assms unfolding scan_ok_def leading_width_def by blast
  then show "range_mask m 0 (enumerate 0 mask_tab) (0, 0) = (uint m, w - 1)"
    "range_mask m 1 (enumerate 0 mask_tab) (0, 0) = (uint m - 2 ^ (8 - w), w - 1)"
    by simp_all
qed

lemma range_mask_zero: "range_mask 0 off (enumerate 0 mask_tab) (0, 0) = (0, 7)"
  by (simp add: mask_tab_def)

lemma shift_step: "push_bit 8 v OR uint (b :: byte) = v * 256 + uint b"
proof -
  have t: "take_bit 8 (uint b) = uint b"
    using uint_bounded[of b] by (simp add: take_bit_int_eq_self)
  have "push_bit 8 v OR uint b = concat_bit 8 (uint b) v"
    by (simp add: concat_bit_def t or.commute)
  also have "\<dots> = take_bit 8 (uint b) + push_bit 8 v" by (rule concat_bit_eq)
  finally show ?thesis by (simp add: t push_bit_eq_mult)
qed

lemma int64_id: "0 \<le> x \<Longrightarrow> x < 2 ^ 63 \<Longrightarrow> int64 x = x"
  unfolding int64_def by (simp add: signed_take_bit_int_eq_self)

lemma be_val_bounds: "0 \<le> be_val bs" "be_val bs < 256 ^ length bs"
proof (induction bs)
  case Nil
  { case 1 show ?case by simp next case 2 show ?case by simp }
next
  case (Cons b bs)
  { case 1 show ?case using Cons(1) by simp
  next
    case 2
    define P :: int where "P = 256 ^ length bs"
    have "uint b \<le> 255" using uint_bounded[of b] by simp
    then have "uint b * P \<le> 255 * P"
      unfolding P_def by (intro mult_right_mono) auto
    moreover have "be_val bs < P" using Cons(2) by (simp add: P_def)
    ultimately have "uint b * P + be_val bs < 256 * P" by linarith
    then show ?case by (simp add: P_def) }
qed

lemma be_val_snoc: "be_val (bs @ [b]) = be_val bs * 256 + uint b"
  by (induction bs) (simp_all add: algebra_simps)

lemma shift_in_be:
  "0 \<le> v \<Longrightarrow> v * 256 ^ length bs + be_val bs < 2 ^ 63 \<Longrightarrow>
     shift_in bs v = v * 256 ^ length bs + be_val bs"
proof (induction bs arbitrary: v)
  case Nil
  then show ?case by (simp add: shift_in_def)
next
  case (Cons b bs)
  let ?v = "v * 256 + uint b"
  have b0: "0 \<le> uint b" by simp
  have v0: "0 \<le> ?v" using Cons(2) by simp
  have eq: "?v * 256 ^ length bs + be_val bs = v * 256 ^ length (b # bs) + be_val (b # bs)"
    by (simp add: algebra_simps)
  have "?v * 256 ^ length bs \<le> ?v * 256 ^ length bs + be_val bs"
    using be_val_bounds(1)[of bs] by simp
  moreover have "?v * 1 \<le> ?v * 256 ^ length bs"
    using v0 by (intro mult_left_mono) auto
  ultimately have "?v < 2 ^ 63" using Cons(3) eq by simp
  then have i: "int64 (push_bit 8 v OR uint b) = ?v"
    using v0 by (simp add: shift_step int64_id)
  have "shift_in (b # bs) v = shift_in bs ?v"
    using i by (simp add: shift_in_def)
  also have "\<dots> = ?v * 256 ^ length bs + be_val bs"
    using Cons(1)[OF v0] Cons(3) eq by simp
  finally show ?case using eq by simp
qed

lemma marker_value:
  assumes "1 \<le> w" "w \<le> 8"
  shows "(2::int) ^ (8 - w) * 256 ^ (w - 1) = 2 ^ (7 * w)"
proof -
  have "(256::int) ^ (w - 1) = 2 ^ (8 * (w - 1))" by (simp add: power_mult)
  then have "(2::int) ^ (8 - w) * 256 ^ (w - 1) = 2 ^ (8 - w + 8 * (w - 1))"
    by (simp add: power_add)
  also have "8 - w + 8 * (w - 1) = 7 * w" using assms by simp
  finally show ?thesis .
qed

lemma vint_value_small:
  assumes "leading_width m w" "length bs = w - 1"
  shows "uint m * 256 ^ (w - 1) + be_val bs < 2 ^ 57"
proof -
  define P :: int where "P = 256 ^ (w - 1)"
  have w: "1 \<le> w" "w \<le> 8" using assms by (auto simp: leading_width_def)
  have "unat m < 2 ^ (9 - w)" using assms by (simp add: leading_width_def)
  then have "int (unat m) < int (2 ^ (9 - w))" by (rule iffD2[OF of_nat_less_iff])
  then have "uint m + 1 \<le> 2 ^ (9 - w)" by simp
  then have "(uint m + 1) * P \<le> 2 ^ (9 - w) * P"
    unfolding P_def by (intro mult_right_mono) auto
  moreover have "be_val bs < P" using be_val_bounds(2)[of bs] assms by (simp add: P_def)
  ultimately have "uint m * P + be_val bs < 2 ^ (9 - w) * P" by (simp add: algebra_simps)
  also have "(2::int) ^ (9 - w) * P = 2 * (2 ^ (8 - w) * 256 ^ (w - 1))"
    using w by (simp add: P_def Suc_diff_le flip: power_Suc)
  also have "\<dots> = 2 ^ (7 * w + 1)" using marker_value[OF w] by simp
  also have "\<dots> \<le> 2 ^ 57" using w by (intro power_increasing) auto
  finally show ?thesis by (simp add: P_def)
qed

lemma readVint_valid:
  assumes idle: "idle d" and lw: "leading_width m w" and len: "length bs = w - 1"
    and u: "unread r = m # bs @ rest"
    and bound: "dec_size d \<le> 0 \<or> int w \<le> dec_len d"
    and off: "off = 0 \<or> off = 1"
  shows "fst (readVint off r d) =
      Inr (be_val (m # bs) - (if off = 1 then 2 ^ (7 * w) else 0), w - 1)"
    and "snd (snd (readVint off r d)) = set_len (dec_len d - int w) d"
    and "unread (fst (snd (readVint off r d))) = rest"
    and "seekable (fst (snd (readVint off r d))) = seekable r"
    and "fst (snd (readVint off r d)) = vint_reader w r"
proof -
  have w: "1 \<le> w" "w \<le> 8" using lw by (auto simp: leading_width_def)
  obtain r2 where rb: "ReadByte r = (Inr m, r2)" and u2: "unread r2 = bs @ rest"
    and s2: "seekable r2 = seekable r"
    using ReadByte_Cons[OF u] by (cases "ReadByte r") auto
  define v where "v = uint m - (if off = 1 then 2 ^ (8 - w) else 0)"
  have rm: "range_mask m off (enumerate 0 mask_tab) (0, 0) = (v, w - 1)"
    using range_mask_leading[OF lw] off by (auto simp: v_def)
  have "2 ^ (8 - w) \<le> unat m" using lw by (simp add: leading_width_def)
  then have "int (2 ^ (8 - w)) \<le> int (unat m)" by (rule iffD2[OF of_nat_le_iff])
  then have mlow: "2 ^ (8 - w) \<le> uint m" by simp
  then have v0: "0 \<le> v" by (simp add: v_def)
  have vle: "v \<le> uint m" by (simp add: v_def)
  have nb: "\<not> (dec_len d < 1 \<and> 0 < dec_size d)" using bound w by auto
  let ?d2 = "set_len (dec_len d - 1) d"
  have val: "v * 256 ^ (w - 1) + be_val bs =
      be_val (m # bs) - (if off = 1 then 2 ^ (7 * w) else 0)"
    using marker_value[OF w] len by (simp add: v_def algebra_simps)
  have all: "fst (readVint off r d) =
      Inr (be_val (m # bs) - (if off = 1 then 2 ^ (7 * w) else 0), w - 1) \<and>
      snd (snd (readVint off r d)) = set_len (dec_len d - int w) d \<and>
      unread (fst (snd (readVint off r d))) = rest \<and>
      seekable (fst (snd (readVint off r d))) = seekable r \<and>
      fst (snd (readVint off r d)) = vint_reader w r"
  proof (cases "w = 1")
    case True
    then have "bs = []" using len by simp
    then show ?thesis
      using True nb rb rm u2 s2 val
      by (simp add: readVint_def skip_idle[OF idle] Let_def vint_reader_def)
  next
    case False
    then have n: "0 < w - 1" "w - 1 \<le> 7" using w by auto
    have nb2: "\<not> (dec_len ?d2 < int (w - 1) \<and> 0 < dec_size ?d2)" using bound w by auto
    have le: "w - 1 \<le> length (unread r2)" using u2 len by simp
    have "w - 1 \<le> bufSize" using n by (simp add: bufSize_def)
    from Peek_enough[OF le this] u2 len
    obtain r3 where pk: "Peek (w - 1) r2 = (Inr bs, r3)" and u3: "unread r3 = bs @ rest"
      and s3: "seekable r3 = seekable r2"
      by (cases "Peek (w - 1) r2") auto
    have le3: "w - 1 \<le> length (unread r3)" using u3 len by simp
    from Discard_enough[OF le3] u3 len
    obtain r4 where dc: "Discard (w - 1) r3 = (None, r4)" and u4: "unread r4 = rest"
      by (cases "Discard (w - 1) r3") auto
    have s4: "seekable r4 = seekable r3" using seekable_Discard'[OF dc] .
    have "v * 256 ^ length bs \<le> uint m * 256 ^ length bs"
      using vle by (intro mult_right_mono) auto
    moreover have "uint m * 256 ^ length bs + be_val bs < 2 ^ 57"
      using vint_value_small[OF lw len] len by simp
    ultimately have "v * 256 ^ length bs + be_val bs < 2 ^ 57"
      by linarith
    then have "v * 256 ^ length bs + be_val bs < 2 ^ 63" by simp
    from shift_in_be[OF v0 this] val len
    have sh: "shift_in bs v = be_val (m # bs) - (if off = 1 then 2 ^ (7 * w) else 0)"
      by simp
    have dl: "set_len (dec_len ?d2 - int (w - 1)) ?d2 = set_len (dec_len d - int w) d"
      using w by (simp add: set_len_def of_nat_diff)
    show ?thesis
      using n nb nb2 rb rm pk dc sh dl u4 s2 s3 s4
      by (simp add: readVint_def skip_idle[OF idle] Let_def vint_reader_def)
  qed
  from all show "fst (readVint off r d) =
      Inr (be_val (m # bs) - (if off = 1 then 2 ^ (7 * w) else 0), w - 1)"
    and "snd (snd (readVint off r d)) = set_len (dec_len d - int w) d"
    and "unread (fst (snd (readVint off r d))) = rest"
    and "seekable (fst (snd (readVint off r d))) = seekable r"
    and "fst (snd (readVint off r d)) = vint_reader w r"
    by blast+
qed

section \<open>The encoder of reference\<close>

lemma marker_all: "\<forall>k\<in>set [0..<256]. marker_ok k"
  by code_simp

lemma clear_marker_leading:
  assumes "leading_width m w"
  shows "uint (clear_marker w m) = uint m - 2 ^ (8 - w)"
proof -
  have "unat m < 256" using unsigned_less[of m] by simp
  then have "marker_ok (unat m)" using marker_all by simp
  moreover have "w \<in> set [1..<9]" using assms by (auto simp: leading_width_def)
  ultimately have "uint (clear_marker w (of_nat (unat m))) = int (unat m) - 2 ^ (8 - w)"
    using assms unfolding marker_ok_def leading_width_def by blast
  then show ?thesis by simp
qed

lemma length_be_bytes [simp]: "length (be_bytes n x) = n"
  by (induction n arbitrary: x) simp_all

lemma div_bounds:
  fixes y :: int
  assumes "0 < P" "a * P \<le> y" "y < b * P"
  shows "a \<le> y div P" "y div P < b"
proof -
  have "a * P div P \<le> y div P" using assms by (intro zdiv_mono1) auto
  then show "a \<le> y div P" using assms by simp
  have "y div P * P + y mod P = y" by simp
  moreover have "0 \<le> y mod P" using assms(1) by simp
  ultimately have le: "y div P * P \<le> y" by linarith
  show "y div P < b"
  proof (rule ccontr)
    assume "\<not> y div P < b"
    then have "b * P \<le> y div P * P" using assms by (intro mult_right_mono) auto
    with le assms show False by simp
  qed
qed

lemma be_val_be_bytes: "0 \<le> x \<Longrightarrow> x < 256 ^ n \<Longrightarrow> be_val (be_bytes n x) = x"
proof (induction n arbitrary: x)
  case 0 then show ?case by simp
next
  case (Suc n)
  define P :: int where "P = 256 ^ n"
  have P: "0 < P" by (simp add: P_def)
  have q: "0 \<le> x div P" "x div P < 256"
    using div_bounds[OF P, of 0 x 256] Suc.prems by (simp_all add: P_def)
  have "uint (word_of_int (x div P) :: byte) = x div P"
    using q by (simp add: uint_word_of_int)
  moreover have "be_val (be_bytes n (x mod P)) = x mod P"
    using Suc.IH[of "x mod P"] P by (simp add: P_def)
  ultimately show ?case by (simp add: P_def[symmetric])
qed

lemma be_bytes_leading:
  assumes w: "1 \<le> w" "w \<le> 8" and y: "2 ^ (7 * w) \<le> y" "y < 2 ^ (7 * w + 1)"
  shows "be_bytes w y = word_of_int (y div 256 ^ (w - 1)) # be_bytes (w - 1) (y mod 256 ^ (w - 1))"
    and "leading_width (word_of_int (y div 256 ^ (w - 1))) w"
proof -
  obtain n where n: "w = Suc n" using w by (cases w) auto
  show "be_bytes w y = word_of_int (y div 256 ^ (w - 1)) # be_bytes (w - 1) (y mod 256 ^ (w - 1))"
    by (simp add: n)
  define P :: int where "P = 256 ^ (w - 1)"
  have P: "0 < P" by (simp add: P_def)
  have lo: "2 ^ (8 - w) * P \<le> y" using marker_value[OF w] y by (simp add: P_def)
  have "9 - w = Suc (8 - w)" using w by simp
  then have "(2::int) ^ (9 - w) * P = 2 * (2 ^ (8 - w) * P)" by simp
  then have hi: "y < 2 ^ (9 - w) * P" using marker_value[OF w] y by (simp add: P_def)
  have q: "2 ^ (8 - w) \<le> y div P" "y div P < 2 ^ (9 - w)"
    using div_bounds[OF P lo hi] by simp_all
  have "(2::int) ^ (9 - w) \<le> 2 ^ 8" using w by (intro power_increasing) auto
  then have q256: "y div P < 256" using q by simp
  have "(0::int) \<le> 2 ^ (8 - w)" by simp
  then have q0: "0 \<le> y div P" using q(1) by linarith
  have "uint (word_of_int (y div P) :: byte) = y div P"
    using q0 q256 by (simp add: uint_word_of_int)
  then have u: "unat (word_of_int (y div P) :: byte) = nat (y div P)" by (simp add: unat_eq_nat_uint)
  have "nat (2 ^ (8 - w)) \<le> nat (y div P)" "nat (y div P) < nat (2 ^ (9 - w))"
    using q q0 by simp_all
  then have "2 ^ (8 - w) \<le> nat (y div P)" "nat (y div P) < 2 ^ (9 - w)"
    by (simp_all add: nat_power_eq)
  then show "leading_width (word_of_int (y div 256 ^ (w - 1))) w"
    using w u by (simp add: leading_width_def P_def)
qed

section \<open>Bounded reads\<close>

lemma set_len_same [simp]: "set_len (dec_len d) d = d"
  by (cases d) (simp add: set_len_def)

lemma set_len_twice [simp]: "set_len a (set_len b d) = set_len a d"
  by (simp add: set_len_def)

lemma bufRead_length: "bufRead n r = (Inr bs, r') \<Longrightarrow> length bs \<le> n"
  by (auto simp: bufRead_def Let_def split: if_splits)

lemma seekable_bufRead [simp]: "seekable (snd (bufRead n r)) = seekable r"
  by (simp add: bufRead_def Let_def)

lemma bufRead_some:
  assumes "unread r \<noteq> []" "0 < n"
  shows "\<exists>bs r'. bufRead n r = (Inr bs, r') \<and> bs \<noteq> [] \<and> length bs \<le> n \<and>
           bs = take (length bs) (unread r) \<and> unread r' = drop (length bs) (unread r)"
proof (cases "buffered r = []")
  case False
  then show ?thesis using assms
    by (auto simp: bufRead_def unread_def min_def)
next
  case True
  then have src: "source r \<noteq> []" using assms by (simp add: unread_def)
  show ?thesis
  proof (cases "bufSize \<le> n")
    case big: True
    then show ?thesis using True src assms
      by (auto simp: bufRead_def unread_def min_def)
  next
    case small: False
    have ne: "buffered (fill r) \<noteq> []" using True src by (simp add: buffered_fill_Nil)
    have bf: "buffered (fill r) = take bufSize (source r)"
      using True by (simp add: fill_def Let_def)
    have sf: "source (fill r) = drop bufSize (source r)"
      using True by (simp add: fill_def Let_def)
    have u: "unread r = source r" using True by (simp add: unread_def)
    have n': "n < bufSize" using small by simp
    have tk: "take n (buffered (fill r)) = take n (source r)"
      using n' by (simp add: bf min_def)
    have dr: "drop n (buffered (fill r)) @ source (fill r) = drop n (source r)"
    proof -
      have "drop n (source r) = drop n (take bufSize (source r) @ drop bufSize (source r))"
        by simp
      also have "\<dots> = drop n (take bufSize (source r)) @
          drop (n - length (take bufSize (source r))) (drop bufSize (source r))"
        by (rule drop_append)
      also have "drop (n - length (take bufSize (source r))) (drop bufSize (source r)) =
          drop bufSize (source r)"
        using n' by (cases "bufSize \<le> length (source r)") (simp_all add: min_def)
      finally show ?thesis by (simp add: bf sf)
    qed
    have "take n (source r) \<noteq> []" using src assms(2) by (cases "source r") auto
    then show ?thesis using True small ne tk dr u
      by (simp add: bufRead_def Let_def unread_def min_def)
  qed
qed

lemma bufRead_none:
  assumes "unread r = []"
  shows "fst (bufRead n r) = Inl EOF" "unread (snd (bufRead n r)) = []"
  using assms by (auto simp: bufRead_def Let_def unread_def fill_def)

lemma Read_loop_enough:
  "want \<le> length (unread r) \<Longrightarrow>
     fst (Read_loop want got r d) = None \<and>
     fst (snd (Read_loop want got r d)) = got @ take want (unread r) \<and>
     unread (fst (snd (snd (Read_loop want got r d)))) = drop want (unread r) \<and>
     seekable (fst (snd (snd (Read_loop want got r d)))) = seekable r \<and>
     snd (snd (snd (Read_loop want got r d))) = set_len (dec_len d - int want) d"
proof (induction want arbitrary: got r d rule: less_induct)
  case (less want)
  show ?case
  proof (cases "want = 0")
    case True
    then show ?thesis by (simp add: Read_loop.simps)
  next
    case False
    then have w: "0 < want" by simp
    then have ne: "unread r \<noteq> []" using less.prems by auto
    from bufRead_some[OF ne w] obtain bs r' where
      b: "bufRead want r = (Inr bs, r')" "bs \<noteq> []" "length bs \<le> want"
        "bs = take (length bs) (unread r)" "unread r' = drop (length bs) (unread r)"
      by blast
    let ?k = "length bs"
    let ?d = "set_len (dec_len d - int ?k) d"
    have sk: "seekable r' = seekable r" using seekable_bufRead[of want r] b(1) by simp
    have k: "want - ?k < want" using b(2) w by simp
    have le: "want - ?k \<le> length (unread r')" using less.prems b(5) by simp
    have step: "Read_loop want got r d = Read_loop (want - ?k) (got @ bs) r' ?d"
      using w b(1,2) by (subst Read_loop.simps) simp
    have tk: "bs @ take (want - ?k) (unread r') = take want (unread r)"
    proof -
      have "take want (unread r) = take ?k (unread r) @ take (want - ?k) (drop ?k (unread r))"
        using b(3) by (metis le_add_diff_inverse take_add)
      then show ?thesis using b(4,5) by simp
    qed
    have dr: "drop (want - ?k) (unread r') = drop want (unread r)"
      using b(3,5) by simp
    have dl: "set_len (dec_len ?d - int (want - ?k)) ?d = set_len (dec_len d - int want) d"
      using b(3) by (simp add: of_nat_diff)
    show ?thesis
      using less.IH[OF k le, of "got @ bs" ?d] step tk dr dl sk
      by simp
  qed
qed

lemma Read_idle_enough:
  assumes "idle d" "0 \<le> dec_len d" "nat (dec_len d) \<le> length (unread r)"
  shows "fst (Read (nat (dec_len d)) r d) = None"
    "fst (snd (Read (nat (dec_len d)) r d)) = take (nat (dec_len d)) (unread r)"
    "unread (fst (snd (snd (Read (nat (dec_len d)) r d)))) = drop (nat (dec_len d)) (unread r)"
    "snd (snd (snd (Read (nat (dec_len d)) r d))) = set_len 0 d"
  using assms Read_loop_enough[OF assms(3), of "[]" d]
  by (simp_all add: Read_def skip_idle)

section \<open>What the operations do to a cursor's fields\<close>

lemma skip_result:
  assumes "skip r d = (e, r1, d1)"
  shows "dec_len d1 = dec_len d" "dec_size d1 = dec_size d" "dec_id d1 = dec_id d"
    "seekable r1 = seekable r" "e = None \<Longrightarrow> idle d1"
  using skip_fields[of r d] skip_success_idle[of r d] assms by simp_all

lemma readVint_fields:
  "dec_size (snd (snd (readVint off r d))) = dec_size d"
  "dec_len (snd (snd (readVint off r d))) \<le> dec_len d"
  "dec_id (snd (snd (readVint off r d))) = dec_id d"
proof -
  obtain e r1 d1 where sk: "skip r d = (e, r1, d1)" by (cases "skip r d") auto
  note d1 = skip_result(1-3)[OF sk]
  show "dec_size (snd (snd (readVint off r d))) = dec_size d"
    "dec_len (snd (snd (readVint off r d))) \<le> dec_len d"
    "dec_id (snd (snd (readVint off r d))) = dec_id d"
    using sk d1
    by (auto simp: readVint_def Let_def split: prod.splits option.splits sum.splits)
qed

lemma readVint_bounded:
  assumes "fst (readVint off r d) = Inr x" "0 < dec_size d"
  shows "0 \<le> dec_len (snd (snd (readVint off r d)))"
proof -
  obtain e r1 d1 where sk: "skip r d = (e, r1, d1)" by (cases "skip r d") auto
  note d1 = skip_result(1-3)[OF sk]
  show ?thesis
    using assms sk d1
    by (auto simp: readVint_def Let_def split: prod.splits option.splits sum.splits if_splits)
qed

lemma Next_fields:
  "dec_size (snd (snd (Next r d))) = dec_size d"
  "dec_len (snd (snd (Next r d))) \<le> dec_len d"
  "dec_id (snd (snd (Next r d))) = dec_id d"
proof -
  obtain e r0 d0 where sk: "skip r d = (e, r0, d0)" by (cases "skip r d") auto
  note d0 = skip_result(1-3)[OF sk]
  obtain a r1 d1 where v1: "readVint 0 r0 d0 = (a, r1, d1)" by (cases "readVint 0 r0 d0") auto
  have d1: "dec_size d1 = dec_size d" "dec_len d1 \<le> dec_len d" "dec_id d1 = dec_id d"
    using readVint_fields[of 0 r0 d0] v1 d0 by simp_all
  obtain b r2 d2 where v2: "readVint 1 r1 d1 = (b, r2, d2)" by (cases "readVint 1 r1 d1") auto
  have d2: "dec_size d2 = dec_size d" "dec_len d2 \<le> dec_len d" "dec_id d2 = dec_id d"
    using readVint_fields[of 1 r1 d1] v2 d1 by simp_all
  show "dec_size (snd (snd (Next r d))) = dec_size d"
    "dec_len (snd (snd (Next r d))) \<le> dec_len d"
    "dec_id (snd (snd (Next r d))) = dec_id d"
    using sk d0 v1 d1 v2 d2
    by (auto simp: Next_def Let_def split: prod.splits option.splits sum.splits)
qed

lemma Next_child:
  assumes "fst (Next r d) = Inr (i, Some c)"
  shows "c = Decoder (dec_size c) (dec_size c) i None" "0 < dec_size c"
    "0 < dec_size d \<Longrightarrow> dec_size c \<le> dec_size d"
    "dec_elem (snd (snd (Next r d))) = Some c"
proof -
  obtain e r0 d0 where sk: "skip r d = (e, r0, d0)" by (cases "skip r d") auto
  note d0 = skip_result(1-3)[OF sk]
  obtain a r1 d1 where v1: "readVint 0 r0 d0 = (a, r1, d1)" by (cases "readVint 0 r0 d0") auto
  have d1: "dec_size d1 = dec_size d"
    using readVint_fields[of 0 r0 d0] v1 d0 by simp_all
  obtain b r2 d2 where v2: "readVint 1 r1 d1 = (b, r2, d2)" by (cases "readVint 1 r1 d1") auto
  have d2: "dec_size d2 = dec_size d"
    using readVint_fields[of 1 r1 d1] v2 d1 by simp_all
  show "c = Decoder (dec_size c) (dec_size c) i None" "0 < dec_size c"
    "0 < dec_size d \<Longrightarrow> dec_size c \<le> dec_size d"
    "dec_elem (snd (snd (Next r d))) = Some c"
    using assms sk v1 v2 d2
    by (auto simp: Next_def Let_def split: prod.splits option.splits sum.splits if_splits)
qed

lemma Read_loop_fields:
  "dec_size (snd (snd (snd (Read_loop want got r d)))) = dec_size d \<and>
   dec_id (snd (snd (snd (Read_loop want got r d)))) = dec_id d \<and>
   dec_len (snd (snd (snd (Read_loop want got r d)))) \<le> dec_len d \<and>
   dec_len d - int want \<le> dec_len (snd (snd (snd (Read_loop want got r d))))"
proof (induction want arbitrary: got r d rule: less_induct)
  case (less want)
  show ?case
  proof (cases "want = 0")
    case True then show ?thesis by (simp add: Read_loop.simps)
  next
    case False
    obtain x r' where b: "bufRead want r = (x, r')" by (cases "bufRead want r") auto
    show ?thesis
    proof (cases x)
      case (Inl e)
      then show ?thesis using False b by (subst (1 2 3 4) Read_loop.simps) simp
    next
      case (Inr bs)
      show ?thesis
      proof (cases "bs = []")
        case True
        then show ?thesis using False b Inr by (subst (1 2 3 4) Read_loop.simps) simp
      next
        case ne: False
        let ?k = "length bs"
        let ?d = "set_len (dec_len d - int ?k) d"
        have kn: "?k \<le> want" using bufRead_length b Inr by simp
        have k: "want - ?k < want" using ne False by simp
        have step: "Read_loop want got r d = Read_loop (want - ?k) (got @ bs) r' ?d"
          using False b Inr ne by (subst Read_loop.simps) simp
        show ?thesis using less.IH[OF k, of "got @ bs" r' ?d] step kn
          by (simp add: of_nat_diff)
      qed
    qed
  qed
qed

lemma Read_fields:
  "dec_size (snd (snd (snd (Read m r d)))) = dec_size d"
  "dec_len (snd (snd (snd (Read m r d)))) \<le> dec_len d"
  "fst (Read m r d) = None \<Longrightarrow> 0 < dec_size d \<Longrightarrow> 0 \<le> dec_len d \<Longrightarrow>
     0 \<le> dec_len (snd (snd (snd (Read m r d))))"
proof -
  obtain e r1 d1 where sk: "skip r d = (e, r1, d1)" by (cases "skip r d") auto
  note d1 = skip_result(1-3)[OF sk]
  show "dec_size (snd (snd (snd (Read m r d)))) = dec_size d"
    "dec_len (snd (snd (snd (Read m r d)))) \<le> dec_len d"
    using sk d1 Read_loop_fields[of "nat (dec_len d1)" "[]" r1 d1] Read_loop_fields[of m "[]" r1 d1]
    by (auto simp: Read_def split: option.splits)
  show "fst (Read m r d) = None \<Longrightarrow> 0 < dec_size d \<Longrightarrow> 0 \<le> dec_len d \<Longrightarrow>
     0 \<le> dec_len (snd (snd (snd (Read m r d))))"
    using sk d1 Read_loop_fields[of "nat (dec_len d1)" "[]" r1 d1] Read_loop_fields[of m "[]" r1 d1]
    by (auto simp: Read_def split: option.splits if_splits)
qed

lemma ReadInt_fields:
  "dec_size (snd (snd (ReadInt r d))) = dec_size d"
  "dec_len (snd (snd (ReadInt r d))) \<le> dec_len d"
  "\<not> isl (fst (ReadInt r d)) \<Longrightarrow> dec_len (snd (snd (ReadInt r d))) = 0"
proof -
  obtain e r1 d1 where sk: "skip r d = (e, r1, d1)" by (cases "skip r d") auto
  note d1 = skip_result(1-3)[OF sk]
  show "dec_size (snd (snd (ReadInt r d))) = dec_size d"
    "dec_len (snd (snd (ReadInt r d))) \<le> dec_len d"
    "\<not> isl (fst (ReadInt r d)) \<Longrightarrow> dec_len (snd (snd (ReadInt r d))) = 0"
    using sk d1
    by (auto simp: ReadInt_def Let_def split: prod.splits option.splits sum.splits if_splits)
qed

lemma ReadFloat_fields:
  "dec_size (snd (snd (ReadFloat r d))) = dec_size d"
  "dec_len (snd (snd (ReadFloat r d))) \<le> dec_len d"
  "\<not> isl (fst (ReadFloat r d)) \<Longrightarrow> dec_len (snd (snd (ReadFloat r d))) = 0"
proof -
  obtain e r1 d1 where sk: "skip r d = (e, r1, d1)" by (cases "skip r d") auto
  note d1 = skip_result(1-3)[OF sk]
  show "dec_size (snd (snd (ReadFloat r d))) = dec_size d"
    "dec_len (snd (snd (ReadFloat r d))) \<le> dec_len d"
    "\<not> isl (fst (ReadFloat r d)) \<Longrightarrow> dec_len (snd (snd (ReadFloat r d))) = 0"
    using sk d1
    by (auto simp: ReadFloat_def Let_def split: prod.splits option.splits sum.splits if_splits)
qed

lemma ReadBytes_fields:
  "dec_size (snd (snd (ReadBytes r d))) = dec_size d"
  "dec_len (snd (snd (ReadBytes r d))) \<le> dec_len d"
  "\<not> isl (fst (ReadBytes r d)) \<Longrightarrow> 0 < dec_size d \<Longrightarrow> 0 \<le> dec_len (snd (snd (ReadBytes r d)))"
proof -
  obtain e r1 d1 where sk: "skip r d = (e, r1, d1)" by (cases "skip r d") auto
  note d1 = skip_result(1-3)[OF sk]
  obtain e2 b r2 d2 where rd: "Read (nat (dec_len d1)) r1 d1 = (e2, b, r2, d2)"
    by (cases "Read (nat (dec_len d1)) r1 d1") auto
  have d2: "dec_size d2 = dec_size d" "dec_len d2 \<le> dec_len d"
    "e2 = None \<Longrightarrow> 0 < dec_size d \<Longrightarrow> 0 \<le> dec_len d \<Longrightarrow> 0 \<le> dec_len d2"
    using Read_fields[of "nat (dec_len d1)" r1 d1] rd d1 by simp_all
  show "dec_size (snd (snd (ReadBytes r d))) = dec_size d"
    "dec_len (snd (snd (ReadBytes r d))) \<le> dec_len d"
    "\<not> isl (fst (ReadBytes r d)) \<Longrightarrow> 0 < dec_size d \<Longrightarrow> 0 \<le> dec_len (snd (snd (ReadBytes r d)))"
    using sk d1 rd d2
    by (auto simp: ReadBytes_def split: option.splits if_splits)
qed

lemma failed_isl: "failed x = None \<longleftrightarrow> \<not> isl x"
  by (cases x) (simp_all add: failed_def)

lemma wrapper_fields:
  "snd (ReadBool r d) = snd (ReadInt r d)" "isl (fst (ReadBool r d)) = isl (fst (ReadInt r d))"
  "snd (ReadTime r d) = snd (ReadInt r d)" "isl (fst (ReadTime r d)) = isl (fst (ReadInt r d))"
  "snd (ReadString r d) = snd (ReadBytes r d)"
  "isl (fst (ReadString r d)) = isl (fst (ReadBytes r d))"
  by (auto simp: ReadBool_def ReadTime_def ReadString_def split: prod.splits sum.splits)

lemma apply_op_result:
  "snd (apply_op OpNext r d) = snd (Next r d)"
  "snd (apply_op (OpRead m) r d) = snd (snd (Read m r d))"
  "snd (apply_op OpSkip r d) = snd (Skip r d)"
  "snd (apply_op OpReadInt r d) = snd (ReadInt r d)"
  "snd (apply_op OpReadFloat r d) = snd (ReadFloat r d)"
  "snd (apply_op OpReadBool r d) = snd (ReadInt r d)"
  "snd (apply_op OpReadTime r d) = snd (ReadInt r d)"
  "snd (apply_op OpReadString r d) = snd (ReadBytes r d)"
  "snd (apply_op OpReadBytes r d) = snd (ReadBytes r d)"
  using wrapper_fields[of r d] by (auto split: prod.splits)

lemma apply_op_ok:
  "fst (apply_op (OpRead m) r d) = fst (Read m r d)"
  "fst (apply_op OpSkip r d) = fst (Skip r d)"
  "fst (apply_op OpReadInt r d) = None \<longleftrightarrow> \<not> isl (fst (ReadInt r d))"
  "fst (apply_op OpReadFloat r d) = None \<longleftrightarrow> \<not> isl (fst (ReadFloat r d))"
  "fst (apply_op OpReadBool r d) = None \<longleftrightarrow> \<not> isl (fst (ReadInt r d))"
  "fst (apply_op OpReadTime r d) = None \<longleftrightarrow> \<not> isl (fst (ReadInt r d))"
  "fst (apply_op OpReadString r d) = None \<longleftrightarrow> \<not> isl (fst (ReadBytes r d))"
  "fst (apply_op OpReadBytes r d) = None \<longleftrightarrow> \<not> isl (fst (ReadBytes r d))"
  using wrapper_fields[of r d] by (auto simp: failed_isl split: prod.splits)

lemma apply_op_fields:
  "dec_size (snd (snd (apply_op x r d))) = dec_size d"
  "dec_len (snd (snd (apply_op x r d))) \<le> dec_len d"
proof -
  show "dec_size (snd (snd (apply_op x r d))) = dec_size d"
    by (cases x)
       (simp_all only: apply_op_result Next_fields Read_fields Skip_fields ReadInt_fields
          ReadFloat_fields ReadBytes_fields)
  show "dec_len (snd (snd (apply_op x r d))) \<le> dec_len d"
  proof (cases x)
    case OpSkip
    then show ?thesis using Skip_len[of r d] by (simp add: apply_op_result del: apply_op.simps)
  qed (simp_all only: apply_op_result Next_fields Read_fields ReadBytes_fields
         ReadInt_fields ReadFloat_fields)
qed

lemma apply_op_nonneg:
  assumes "fst (apply_op x r d) = None" "x \<noteq> OpNext" "0 < dec_size d" "0 \<le> dec_len d"
  shows "0 \<le> dec_len (snd (snd (apply_op x r d)))"
proof (cases x)
  case OpNext
  then show ?thesis using assms by simp
next
  case (OpRead m)
  then have "fst (Read m r d) = None" using assms(1) by (simp add: apply_op_ok del: apply_op.simps)
  from Read_fields(3)[OF this assms(3,4)] OpRead show ?thesis
    by (simp add: apply_op_result del: apply_op.simps)
next
  case OpSkip
  then have "fst (Skip r d) = None" using assms(1) by (simp add: apply_op_ok del: apply_op.simps)
  then show ?thesis using OpSkip assms(4) Skip_len[of r d]
    by (simp add: apply_op_result del: apply_op.simps)
next
  case OpReadInt
  then have "\<not> isl (fst (ReadInt r d))" using assms(1) by (simp add: apply_op_ok del: apply_op.simps)
  from ReadInt_fields(3)[OF this] OpReadInt show ?thesis
    by (simp add: apply_op_result del: apply_op.simps)
next
  case OpReadFloat
  then have "\<not> isl (fst (ReadFloat r d))" using assms(1) by (simp add: apply_op_ok del: apply_op.simps)
  from ReadFloat_fields(3)[OF this] OpReadFloat show ?thesis
    by (simp add: apply_op_result del: apply_op.simps)
next
  case OpReadBool
  then have "\<not> isl (fst (ReadInt r d))" using assms(1) by (simp add: apply_op_ok del: apply_op.simps)
  from ReadInt_fields(3)[OF this] OpReadBool show ?thesis
    by (simp add: apply_op_result del: apply_op.simps)
next
  case OpReadTime
  then have "\<not> isl (fst (ReadInt r d))" using assms(1) by (simp add: apply_op_ok del: apply_op.simps)
  from ReadInt_fields(3)[OF this] OpReadTime show ?thesis
    by (simp add: apply_op_result del: apply_op.simps)
next
  case OpReadString
  then have "\<not> isl (fst (ReadBytes r d))" using assms(1) by (simp add: apply_op_ok del: apply_op.simps)
  from ReadBytes_fields(3)[OF this assms(3)] OpReadString show ?thesis
    by (simp add: apply_op_result del: apply_op.simps)
next
  case OpReadBytes
  then have "\<not> isl (fst (ReadBytes r d))" using assms(1) by (simp add: apply_op_ok del: apply_op.simps)
  from ReadBytes_fields(3)[OF this assms(3)] OpReadBytes show ?thesis
    by (simp add: apply_op_result del: apply_op.simps)
qed

lemma run_ops_fields:
  "run_ops xs r d = Some (r', d') \<Longrightarrow>
     dec_size d' = dec_size d \<and> dec_len d' \<le> dec_len d \<and>
     (0 < dec_size d \<and> 0 \<le> dec_len d \<and> OpNext \<notin> set xs \<longrightarrow> 0 \<le> dec_len d')"
proof (induction xs arbitrary: r d)
  case Nil
  then show ?case by simp
next
  case (Cons x xs)
  obtain e r1 d1 where a: "apply_op x r d = (e, r1, d1)" by (cases "apply_op x r d") auto
  with Cons.prems have e: "e = None" and run: "run_ops xs r1 d1 = Some (r', d')"
    by (auto split: option.splits)
  have f: "dec_size d1 = dec_size d" "dec_len d1 \<le> dec_len d"
    using apply_op_fields[of x r d] a by simp_all
  have nn: "0 < dec_size d \<and> 0 \<le> dec_len d \<and> x \<noteq> OpNext \<longrightarrow> 0 \<le> dec_len d1"
    using apply_op_nonneg[of x r d] a e by auto
  show ?case using Cons.IH[OF run] f nn by auto
qed

section \<open>An exhausted source\<close>

lemma unread_Nil_iff: "unread r = [] \<longleftrightarrow> buffered r = [] \<and> source r = []"
  by (simp add: unread_def)

lemma Skip_own_exhausted:
  assumes "unread r = []" and nf: "\<not> seek_fails r"
  shows "fst (Skip_own r d) = None \<or> fst (Skip_own r d) = Some EOF"
    "unread (fst (snd (Skip_own r d))) = []"
proof -
  have sr: "unread (SeekReset n r) = []" for n
    using assms by (simp add: SeekReset_def unread_def)
  have dc: "fst (Discard n r) = Some EOF \<and> unread (snd (Discard n r)) = []" if "0 < n" for n
    using Discard_short[of r n] assms that by simp
  show "fst (Skip_own r d) = None \<or> fst (Skip_own r d) = Some EOF"
    using dc[of "nat (dec_len d)"] nf
    by (auto simp: Skip_own_def Let_def split: prod.splits option.splits)
  show "unread (fst (snd (Skip_own r d))) = []"
    using dc[of "nat (dec_len d)"] sr assms
    by (auto simp: Skip_own_def Let_def split: prod.splits option.splits)
qed

lemma Skip_exhausted:
  "unread r = [] \<Longrightarrow> \<not> seek_fails r \<Longrightarrow>
     (fst (Skip r d) = None \<or> fst (Skip r d) = Some EOF) \<and> unread (fst (snd (Skip r d))) = []"
proof (induction r d rule: Skip.induct)
  case (1 r l s i)
  then show ?case using Skip_own_exhausted[of r "Decoder l s i None"] by simp
next
  case (2 r l s i e)
  obtain err r' e' where f: "Skip r e = (err, r', e')" by (cases "Skip r e") auto
  with 2 have IH: "err = None \<or> err = Some EOF" "unread r' = []" by auto
  have nf: "\<not> seek_fails r'" using seek_fails_Skip[of r e] f 2(3) by simp
  show ?case
  proof (cases err)
    case None
    then show ?thesis using f IH(2) nf Skip_own_exhausted[of r' "Decoder l s i (Some e')"] by simp
  next
    case (Some a)
    then show ?thesis using f IH by simp
  qed
qed

lemma skip_exhausted:
  assumes "unread r = []" and "idle d \<or> \<not> seek_fails r"
  shows "fst (skip r d) = None \<or> fst (skip r d) = Some EOF" "unread (fst (snd (skip r d))) = []"
proof (atomize (full), cases "dec_elem d")
  case None
  then show "(fst (skip r d) = None \<or> fst (skip r d) = Some EOF) \<and>
      unread (fst (snd (skip r d))) = []"
    using assms by (simp add: skip_def)
next
  case (Some e)
  show "(fst (skip r d) = None \<or> fst (skip r d) = Some EOF) \<and>
      unread (fst (snd (skip r d))) = []"
  proof (cases "idle d")
    case True
    then show ?thesis using assms(1) by (simp add: skip_idle)
  next
    case False
    then have nf: "\<not> seek_fails r" using assms(2) by simp
    obtain err r' e' where f: "Skip r e = (err, r', e')" by (cases "Skip r e") auto
    then have "err = None \<or> err = Some EOF" "unread r' = []"
      using Skip_exhausted[OF assms(1) nf, of e] by simp_all
    then show ?thesis using Some f by (simp add: skip_def)
  qed
qed

lemma readVint_exhausted:
  assumes "unread r = []" and "idle d \<or> \<not> seek_fails r"
  shows "fst (readVint off r d) = Inl EOF" "unread (fst (snd (readVint off r d))) = []"
proof -
  obtain e r1 d1 where sk: "skip r d = (e, r1, d1)" by (cases "skip r d") auto
  have e: "e = None \<or> e = Some EOF" and u1: "unread r1 = []"
    using skip_exhausted[OF assms] sk by simp_all
  have rb: "fst (ReadByte r1) = Inl EOF" "unread (snd (ReadByte r1)) = []"
    using ReadByte_Nil[OF u1] by simp_all
  show "fst (readVint off r d) = Inl EOF"
    using sk e rb by (cases "ReadByte r1") (auto simp: readVint_def)
  show "unread (fst (snd (readVint off r d))) = []"
    using sk e u1 rb by (cases "ReadByte r1") (auto simp: readVint_def)
qed

lemma Next_exhausted:
  assumes "unread r = []" and "idle d \<or> \<not> seek_fails r"
  shows "fst (Next r d) = Inl EOF" "unread (fst (snd (Next r d))) = []"
proof -
  obtain e r0 d0 where sk: "skip r d = (e, r0, d0)" by (cases "skip r d") auto
  have e: "e = None \<or> e = Some EOF" and u0: "unread r0 = []"
    using skip_exhausted[OF assms] sk by simp_all
  have i0: "e = None \<Longrightarrow> idle d0 \<or> \<not> seek_fails r0"
    using skip_success_idle[of r d] sk by simp
  obtain a r1 d1 where v: "readVint 0 r0 d0 = (a, r1, d1)" by (cases "readVint 0 r0 d0") auto
  have a: "e = None \<Longrightarrow> a = Inl EOF" "e = None \<Longrightarrow> unread r1 = []"
    using readVint_exhausted[OF u0 i0, of 0] v by simp_all
  show "fst (Next r d) = Inl EOF" using sk e v a by (auto simp: Next_def)
  show "unread (fst (snd (Next r d))) = []" using sk e u0 v a by (auto simp: Next_def)
qed

section \<open>Decoding into a field that holds a value\<close>


lemma one_byte_int: "SetInt KInt64 (shift_in [a] 0) = VInt KInt64 (uint a)"
proof -
  have b: "0 \<le> uint a" "uint a < 2 ^ 63"
    using uint_bounded[of a] by simp_all
  have "shift_in [a] 0 = uint a"
    using b by (simp add: shift_in_def shift_step int64_id)
  moreover have "signed_take_bit 63 (uint a) = uint a"
    using int64_id[OF b] by (simp add: int64_def)
  ultimately show ?thesis by (simp add: SetInt_def)
qed

section \<open>Readers of one shape\<close>

lemma reader_eqI:
  fixes r r' :: reader
  assumes "shape r = shape r'" "unread r = unread r'"
  shows "r = r'"
  using assms by (cases r; cases r') (auto simp: shape_def unread_def)

lemma shape_fill: "shape r = shape r' \<Longrightarrow> shape (fill r) = shape (fill r')"
  by (auto simp: shape_def fill_def Let_def)

lemma shape_pick:
  "shape r = shape r' \<Longrightarrow>
     shape (if buffered r = [] then fill r else r) = shape (if buffered r' = [] then fill r' else r')"
  using shape_fill[of r r'] by (auto simp: shape_def)

lemma shape_buffered:
  "shape r = shape r' \<Longrightarrow>
     shape (r\<lparr>buffered := drop k (buffered r)\<rparr>) = shape (r'\<lparr>buffered := drop k (buffered r')\<rparr>)"
  "shape r = shape r' \<Longrightarrow> shape (r\<lparr>buffered := []\<rparr>) = shape (r'\<lparr>buffered := []\<rparr>)"
  by (auto simp: shape_def)

lemma shape_ReadByte:
  assumes "shape r = shape r'"
  shows "shape (snd (ReadByte r)) = shape (snd (ReadByte r'))"
proof -
  let ?a = "if buffered r = [] then fill r else r"
  let ?b = "if buffered r' = [] then fill r' else r'"
  have s: "shape ?a = shape ?b" using shape_pick[OF assms] .
  then have l: "length (buffered ?a) = length (buffered ?b)" by (simp add: shape_def)
  show ?thesis
  proof (cases "buffered ?a")
    case Nil
    then have "buffered ?b = []" using l by simp
    then show ?thesis using Nil s by (simp add: ReadByte_def Let_def)
  next
    case (Cons x xs)
    then obtain y ys where b: "buffered ?b = y # ys" using l by (cases "buffered ?b") auto
    have "length xs = length ys" using l Cons b by simp
    then have "shape (?a\<lparr>buffered := xs\<rparr>) = shape (?b\<lparr>buffered := ys\<rparr>)"
      using s by (simp add: shape_def)
    then show ?thesis using Cons b by (simp add: ReadByte_def Let_def)
  qed
qed

lemma shape_Peek:
  assumes "shape r = shape r'"
  shows "shape (snd (Peek n r)) = shape (snd (Peek n r'))"
proof -
  have l: "length (buffered r) = length (buffered r')" using assms by (simp add: shape_def)
  let ?a = "if length (buffered r) < n \<and> length (buffered r) < bufSize then fill r else r"
  let ?b = "if length (buffered r') < n \<and> length (buffered r') < bufSize then fill r' else r'"
  have s: "shape ?a = shape ?b" using shape_fill[OF assms] assms l by simp
  then have "length (buffered ?a) = length (buffered ?b)" by (simp add: shape_def)
  then show ?thesis using s by (simp add: Peek_def Let_def)
qed

lemma shape_Discard:
  "shape r = shape r' \<Longrightarrow>
     shape (snd (Discard n r)) = shape (snd (Discard n r')) \<and>
     fst (Discard n r) = fst (Discard n r')"
proof (induction n arbitrary: r r' rule: less_induct)
  case (less n)
  let ?a = "if buffered r = [] then fill r else r"
  let ?b = "if buffered r' = [] then fill r' else r'"
  have s: "shape ?a = shape ?b" using shape_pick[OF less.prems] .
  then have l: "length (buffered ?a) = length (buffered ?b)" by (simp add: shape_def)
  show ?case
  proof (cases "n = 0")
    case True then show ?thesis using less.prems by simp
  next
    case n0: False
    show ?thesis
    proof (cases "n \<le> length (buffered ?a)")
      case True
      then have "n \<le> length (buffered ?b)" using l by simp
      then show ?thesis
        using Discard_within[OF n0 True] Discard_within[OF n0, of r'] shape_buffered(1)[OF s, of n]
        by simp
    next
      case False
      then have lt: "length (buffered ?a) < n" "length (buffered ?b) < n" using l by simp_all
      show ?thesis
      proof (cases "buffered ?a = []")
        case True
        then have "buffered ?b = []" using l by simp
        then show ?thesis
          using Discard_dry[OF n0 True] Discard_dry[OF n0, of r'] shape_buffered(2)[OF s]
          by simp
      next
        case ne: False
        then have ne': "buffered ?b \<noteq> []" using l by auto
        have "n - length (buffered ?a) < n" using ne lt by simp
        from less.IH[OF this shape_buffered(2)[OF s]]
        show ?thesis
          using Discard_beyond[OF lt(1) ne] Discard_beyond[OF lt(2) ne'] l by simp
      qed
    qed
  qed
qed

lemma shape_vint_reader:
  assumes "shape r = shape r'"
  shows "shape (vint_reader w r) = shape (vint_reader w r')"
  using shape_ReadByte[OF assms]
    shape_Discard[OF shape_Peek[OF shape_ReadByte[OF assms], of "w - 1"], of "w - 1"]
  by (simp add: vint_reader_def)

lemma shape_Skip_own:
  assumes "shape r = shape r'"
  shows "shape (fst (snd (Skip_own r d))) = shape (fst (snd (Skip_own r' d)))"
proof -
  have e: "seekable r = seekable r'" "seek_fails r = seek_fails r'"
    "length (buffered r) = length (buffered r')" "length (source r) = length (source r')"
    using assms by (simp_all add: shape_def)
  have sr: "shape (SeekReset k r) = shape (SeekReset k r')" for k
    using e by (simp add: shape_def SeekReset_def)
  show ?thesis
    using e sr shape_Discard[OF assms, of "nat (dec_len d)"] assms
    by (auto simp: Skip_own_def Let_def split: prod.splits option.splits)
qed

lemma idle_set_len [simp]: "idle (set_len l d) = idle d"
  by (simp add: idle_def)

lemma be_val_leading_pos:
  assumes "leading_width m w"
  shows "0 < be_val (m # bs)"
proof -
  have "1 \<le> unat m"
  proof -
    have "(1::nat) \<le> 2 ^ (8 - w)" by simp
    then show ?thesis using assms unfolding leading_width_def by linarith
  qed
  then have "int 1 \<le> int (unat m)" by (rule iffD2[OF of_nat_le_iff])
  then have "1 \<le> uint m" by simp
  then have "1 * 1 \<le> uint m * 256 ^ length bs"
    by (intro mult_mono) auto
  then show ?thesis using be_val_bounds(1)[of bs] by simp
qed

lemma Next_valid:
  assumes idle: "idle d"
    and lw1: "leading_width m1 w1" and len1: "length bs1 = w1 - 1"
    and lw2: "leading_width m2 w2" and len2: "length bs2 = w2 - 1"
    and u: "unread r = m1 # bs1 @ m2 # bs2 @ rest"
    and sz: "sz = be_val (m2 # bs2) - 2 ^ (7 * w2)" and pos: "0 < sz"
    and bound: "dec_size d \<le> 0 \<or> int (w1 + w2) \<le> dec_len d \<and> sz \<le> dec_size d"
  shows "Next r d =
      (Inr (be_val (m1 # bs1), Some (Decoder sz sz (be_val (m1 # bs1)) None)),
       vint_reader w2 (vint_reader w1 r),
       set_elem (Some (Decoder sz sz (be_val (m1 # bs1)) None))
         (set_len (dec_len d - int (w1 + w2) - sz) d))"
    and "unread (vint_reader w2 (vint_reader w1 r)) = rest"
proof -
  let ?i = "be_val (m1 # bs1)"
  let ?d1 = "set_len (dec_len d - int w1) d"
  let ?r1 = "vint_reader w1 r"
  have w: "1 \<le> w1" "1 \<le> w2" using lw1 lw2 by (auto simp: leading_width_def)
  have b1: "dec_size d \<le> 0 \<or> int w1 \<le> dec_len d" using bound by auto
  have u': "unread r = m1 # bs1 @ (m2 # bs2 @ rest)" using u by simp
  note v1 = readVint_valid[OF idle lw1 len1 u' b1, of 0]
  have rv1: "readVint 0 r d = (Inr (?i, w1 - 1), ?r1, ?d1)"
    using v1(1,2,5) by (cases "readVint 0 r d") simp
  have u1: "unread ?r1 = m2 # bs2 @ rest" using v1(3,5) by simp
  have b2: "dec_size ?d1 \<le> 0 \<or> int w2 \<le> dec_len ?d1" using bound by auto
  have idle1: "idle ?d1" using idle by simp
  note v2 = readVint_valid[OF idle1 lw2 len2 u1 b2, of 1]
  let ?r2 = "vint_reader w2 ?r1"
  let ?d2 = "set_len (dec_len d - int (w1 + w2)) d"
  have rv2: "readVint 1 ?r1 ?d1 = (Inr (sz, w2 - 1), ?r2, ?d2)"
    using v2(1,2,5) sz by (cases "readVint 1 ?r1 ?d1") (simp add: algebra_simps)
  have i0: "?i \<noteq> 0" using be_val_leading_pos[OF lw1, of bs1] by simp
  have nb: "\<not> (dec_size ?d2 < sz \<and> 0 < dec_size ?d2)" using bound by auto
  show "Next r d =
      (Inr (?i, Some (Decoder sz sz ?i None)), ?r2,
       set_elem (Some (Decoder sz sz ?i None)) (set_len (dec_len d - int (w1 + w2) - sz) d))"
    using rv1 rv2 i0 nb pos
    by (simp add: Next_def skip_idle[OF idle] Let_def)
  show "unread ?r2 = rest" using v2(3,5) by simp
qed

lemma same_shape_shape: "same_shape r r' \<longleftrightarrow> shape r = shape r'"
  by (auto simp: same_shape_def shape_def)

section \<open>The fields a struct's decode loop leaves alone\<close>

lemma map_fst_set_Field [simp]: "map fst (set_Field fs i v) = map fst fs"
proof (cases "i < length fs")
  case True
  then show ?thesis by (simp add: set_Field_def map_update list_update_same_conv)
next
  case False
  then have "fs[i := (fst (fs ! i), v)] = fs" by (intro list_update_beyond) simp
  then show ?thesis by (simp add: set_Field_def)
qed




section \<open>The course of a decode and the value decoded into\<close>























lemma length_set_Field [simp]: "length (set_Field fs i v) = length fs"
  by (simp add: set_Field_def)











section \<open>Claims about the vint codec\<close>

text \<open>
  C3, as amended. For every valid vint encoding of width \<open>w\<close> from 1 to 8 (a leading
  byte \<open>m\<close> whose highest set bit is at position \<open>w\<close>, and \<open>w - 1\<close> further bytes),
  decoding with the id-kind mask keeps the whole leading byte, marker bit included: the
  id is the big-endian value of all \<open>w\<close> bytes. Decoding the same bytes with the
  size-kind mask clears exactly the marker bit and nothing else: the size is the
  big-endian value of the bytes with the marker bit of the leading byte cleared.
\<close>

theorem vint_masks:
  assumes "idle d" and "leading_width m w" and "length bs = w - 1"
    and "unread r = m # bs @ rest"
    and "dec_size d \<le> 0 \<or> int w \<le> dec_len d"
  shows "fst (readVint 0 r d) = Inr (be_val (m # bs), w - 1) \<and>
         fst (readVint 1 r d) = Inr (be_val (clear_marker w m # bs), w - 1)"
proof -
  have w: "1 \<le> w" "w \<le> 8" using assms(2) by (auto simp: leading_width_def)
  have "uint (clear_marker w m) = uint m - 2 ^ (8 - w)"
    using clear_marker_leading[OF assms(2)] .
  then have "uint (clear_marker w m) * 256 ^ (w - 1) =
      uint m * 256 ^ (w - 1) - 2 ^ (8 - w) * 256 ^ (w - 1)"
    by (simp add: left_diff_distrib)
  then have "be_val (clear_marker w m # bs) = be_val (m # bs) - 2 ^ (7 * w)"
    using marker_value[OF w] assms(3) by simp
  then show ?thesis
    using readVint_valid(1)[OF assms, of 0] readVint_valid(1)[OF assms, of 1]
    by simp
qed

theorem vint_masks_witness:
  "fst (readVint 0 (from_bytes [0x1A, 0x45, 0xDF, 0xA3]) (NewDecoder 0)) = Inr (0x1A45DFA3, 3) \<and>
   fst (readVint 1 (from_bytes [0x1A, 0x45, 0xDF, 0xA3]) (NewDecoder 0)) = Inr (0x0A45DFA3, 3)"
proof -
  have "idle (NewDecoder 0)" by (simp add: idle_def NewDecoder_def)
  moreover have "leading_width 0x1A 4" by (simp add: leading_width_def)
  moreover have "length [0x45, 0xDF, 0xA3 :: byte] = 4 - 1" by simp
  moreover have "unread (from_bytes [0x1A, 0x45, 0xDF, 0xA3]) = 0x1A # [0x45, 0xDF, 0xA3] @ []"
    by (simp add: unread_def from_bytes_def)
  moreover have "dec_size (NewDecoder 0) \<le> 0 \<or> int 4 \<le> dec_len (NewDecoder 0)"
    by (simp add: NewDecoder_def)
  ultimately show ?thesis
    using vint_masks[of "NewDecoder 0" "0x1A" 4 "[0x45, 0xDF, 0xA3]"
        "from_bytes [0x1A, 0x45, 0xDF, 0xA3]" "[]"]
    by (simp add: clear_marker_def mask_tab_def)
qed

text \<open>
  C3, as stated, fails. The claim has the id-kind mask clear the marker bit and the
  size-kind mask clear the marker bit and one more high bit. On the single byte
  \<open>0xFF\<close> of width 1 the decoder returns neither value: the id is \<open>0xFF\<close>, not
  \<open>0x7F\<close>; the size is \<open>0x7F\<close>, the byte without its marker bit, not \<open>0x3F\<close> (and
  since every bit of \<open>0xFF\<close> is set, clearing any second bit would give a value
  other than \<open>0x7F\<close>).
\<close>

theorem vint_residual_counterexample:
  "fst (readVint 0 (from_bytes [0xFF]) (NewDecoder 0)) = Inr (0xFF, 0) \<and>
   fst (readVint 0 (from_bytes [0xFF]) (NewDecoder 0)) \<noteq> Inr (uint (spec_id_residual 1 0xFF), 0) \<and>
   fst (readVint 1 (from_bytes [0xFF]) (NewDecoder 0)) = Inr (0x7F, 0) \<and>
   fst (readVint 1 (from_bytes [0xFF]) (NewDecoder 0)) \<noteq> Inr (uint (spec_size_residual 1 0xFF), 0)"
  by code_simp

text \<open>
  C6. The claim: a leading byte with no set bit (\<open>0x00\<close>) makes the vint decoder return
  a format error. The marker scan of \<open>readVint\<close> has no case for it: the loop ends with
  \<open>n = 7\<close> and \<open>v = 0\<close>, and the decoder reads seven more bytes as the value. On the
  bytes \<open>00 00 00 00 00 00 00 05\<close> it returns the value 5 and no error.
\<close>

theorem readVint_zero_leading_byte:
  "readVint 1 (from_bytes [0, 0, 0, 0, 0, 0, 0, 5]) (NewDecoder 0) =
     (Inr (5, 7), from_bytes [], Decoder (- 8) 0 0 None) \<and>
   readVint 0 (from_bytes [0, 0, 0, 0, 0, 0, 0, 5]) (NewDecoder 0) =
     (Inr (5, 7), from_bytes [], Decoder (- 8) 0 0 None)"
  by code_simp

text \<open>
  C8, as amended. For every value \<open>x\<close> encodable as a vint of width \<open>w\<close> from 1 to 8
  (\<open>0 \<le> x < 2 ^ (7 * w)\<close>), decoding the reference encoding of \<open>x\<close> consumes exactly
  the \<open>w\<close> bytes of the encoding under both masking rules. Under the size-kind rule it
  yields \<open>x\<close> back. Under the id-kind rule it yields \<open>x + 2 ^ (7 * w)\<close>: \<open>x\<close> with the
  width marker kept above its value bits, the number that the bytes of the encoding
  spell. The cursor has no child left to skip and is unbounded or has at least \<open>w\<close>
  bytes remaining.
\<close>

theorem vint_roundtrip:
  assumes "idle d" and "1 \<le> w" and "w \<le> 8" and "0 \<le> x" and "x < 2 ^ (7 * w)"
    and "unread r = encode_vint w x @ rest"
    and "dec_size d \<le> 0 \<or> int w \<le> dec_len d"
  shows "fst (readVint 1 r d) = Inr (x, w - 1) \<and>
         unread (fst (snd (readVint 1 r d))) = rest \<and>
         snd (snd (readVint 1 r d)) = set_len (dec_len d - int w) d \<and>
         fst (readVint 0 r d) = Inr (x + 2 ^ (7 * w), w - 1) \<and>
         unread (fst (snd (readVint 0 r d))) = rest \<and>
         snd (snd (readVint 0 r d)) = set_len (dec_len d - int w) d"
proof -
  define y where "y = x + 2 ^ (7 * w)"
  have y: "2 ^ (7 * w) \<le> y" "y < 2 ^ (7 * w + 1)" using assms(4,5) by (simp_all add: y_def)
  let ?m = "word_of_int (y div 256 ^ (w - 1)) :: byte"
  let ?bs = "be_bytes (w - 1) (y mod 256 ^ (w - 1))"
  have split: "be_bytes w y = ?m # ?bs" and lw: "leading_width ?m w"
    using be_bytes_leading[OF assms(2,3) y] by simp_all
  have len: "length ?bs = w - 1" by simp
  have u': "unread r = ?m # ?bs @ rest" using assms(6) split by (simp add: encode_vint_def y_def)
  have "(2::int) ^ (7 * w + 1) \<le> 256 ^ w"
  proof -
    have "(256::int) ^ w = 2 ^ (8 * w)" by (simp add: power_mult)
    moreover have "(2::int) ^ (7 * w + 1) \<le> 2 ^ (8 * w)"
      using assms(2) by (intro power_increasing) auto
    ultimately show ?thesis by simp
  qed
  then have "y < 256 ^ w" using y by simp
  moreover have "0 \<le> y" using assms(4) by (simp add: y_def)
  ultimately have "be_val (be_bytes w y) = y" by (rule be_val_be_bytes[rotated])
  then have v: "be_val (?m # ?bs) = y" using split by simp
  have o: "(0::nat) = 0 \<or> (0::nat) = 1" "(1::nat) = 0 \<or> (1::nat) = 1" by simp_all
  show ?thesis
    using readVint_valid(1,2,3)[OF assms(1) lw len u' assms(7) o(1)]
      readVint_valid(1,2,3)[OF assms(1) lw len u' assms(7) o(2)] v
    by (simp add: y_def)
qed

theorem vint_roundtrip_witness:
  "fst (readVint 1 (from_bytes (encode_vint 2 300 @ [7])) (NewDecoder 0)) = Inr (300, 1) \<and>
   unread (fst (snd (readVint 1 (from_bytes (encode_vint 2 300 @ [7])) (NewDecoder 0)))) = [7] \<and>
   fst (readVint 0 (from_bytes (encode_vint 2 300 @ [7])) (NewDecoder 0)) = Inr (300 + 2 ^ 14, 1) \<and>
   unread (fst (snd (readVint 0 (from_bytes (encode_vint 2 300 @ [7])) (NewDecoder 0)))) = [7]"
proof -
  have i: "idle (NewDecoder 0)" by (simp add: idle_def NewDecoder_def)
  have b: "dec_size (NewDecoder 0) \<le> 0 \<or> int 2 \<le> dec_len (NewDecoder 0)"
    by (simp add: NewDecoder_def)
  have w: "1 \<le> (2::nat)" "(2::nat) \<le> 8" by simp_all
  have x: "(0::int) \<le> 300" "(300::int) < 2 ^ (7 * 2)" by simp_all
  have u: "unread (from_bytes (encode_vint 2 300 @ [7])) = encode_vint 2 300 @ [7]"
    by (simp add: unread_def from_bytes_def)
  show ?thesis
    using vint_roundtrip[OF i w x u b] by simp
qed

text \<open>
  C8, as stated, fails for the id-kind rule, which keeps the marker bit by design (C3).
  The value 300 at width 2 is encoded as \<open>41 2C\<close>; the size-kind rule decodes it to
  300, the id-kind rule to \<open>0x412C\<close> = 16684.
\<close>

theorem vint_id_roundtrip_counterexample:
  "encode_vint 2 300 = [0x41, 0x2C] \<and>
   fst (readVint 0 (from_bytes (encode_vint 2 300)) (NewDecoder 0)) = Inr (16684, 1) \<and>
   fst (readVint 0 (from_bytes (encode_vint 2 300)) (NewDecoder 0)) \<noteq> Inr (300, 1)"
  by code_simp

section \<open>Claims about the element cursor\<close>

text \<open>
  C1. The claim: \<open>Next\<close> on a cursor of positive declared size returns a format error
  and no child when the child's declared size exceeds the bytes still unconsumed at
  this level. \<open>Next\<close> compares the child's size with \<open>dec.size\<close>, the cursor's total
  declared size, where \<open>readVint\<close> and \<open>Read\<close> bound by \<open>dec.len\<close>. A cursor of size 10
  with 10 bytes remaining reads the two header bytes \<open>81 8A\<close> (id \<open>0x81\<close>, size 10):
  8 bytes remain, the child of 10 bytes is returned, and the cursor is left with
  \<open>-2\<close> bytes remaining.
\<close>

theorem Next_child_beyond_remaining:
  "Next (from_bytes [0x81, 0x8A]) (Decoder 10 10 1 None) =
     (Inr (0x81, Some (Decoder 10 10 0x81 None)), from_bytes [],
      Decoder (- 2) 10 1 (Some (Decoder 10 10 0x81 None)))"
  by code_simp

text \<open>
  C2, as amended. Every operation on a cursor (\<open>Next\<close>, \<open>Read\<close>, \<open>Skip\<close>, the primitive
  readers) leaves its total size unchanged and never increases its remaining count, so
  \<open>remaining \<le> totalSize\<close> is kept by every sequence of operations. On a size-bounded
  cursor (\<open>totalSize > 0\<close>) with \<open>0 \<le> remaining\<close>, every sequence of \<open>Read\<close>, \<open>Skip\<close> and
  primitive readers that return without error leaves \<open>0 \<le> remaining\<close>. A child
  returned by \<open>Next\<close> has remaining = totalSize = its declared size, which is positive,
  and no child of its own; under a size-bounded parent its total size is at most the
  parent's total size. (What \<open>Next\<close> leaves of the parent's lower bound is the subject
  of C1 and is not stated here.)
\<close>

theorem cursor_invariant:
  assumes "run_ops xs r d = Some (r', d')"
  shows "dec_size d' = dec_size d \<and> dec_len d' \<le> dec_len d \<and>
    (dec_len d \<le> dec_size d \<longrightarrow> dec_len d' \<le> dec_size d') \<and>
    (0 < dec_size d \<and> 0 \<le> dec_len d \<and> OpNext \<notin> set xs \<longrightarrow> 0 \<le> dec_len d') \<and>
    (\<forall>i c. fst (Next r d) = Inr (i, Some c) \<longrightarrow>
       c = Decoder (dec_size c) (dec_size c) i None \<and> 0 < dec_size c \<and>
       (0 < dec_size d \<longrightarrow> dec_size c \<le> dec_size d))"
proof -
  have "dec_size d' = dec_size d \<and> dec_len d' \<le> dec_len d \<and>
     (0 < dec_size d \<and> 0 \<le> dec_len d \<and> OpNext \<notin> set xs \<longrightarrow> 0 \<le> dec_len d')"
    using run_ops_fields[OF assms] .
  moreover have "\<forall>i c. fst (Next r d) = Inr (i, Some c) \<longrightarrow>
       c = Decoder (dec_size c) (dec_size c) i None \<and> 0 < dec_size c \<and>
       (0 < dec_size d \<longrightarrow> dec_size c \<le> dec_size d)"
    using Next_child(1,2,3) by blast
  ultimately show ?thesis by simp
qed

theorem cursor_invariant_witness:
  "run_ops [OpRead 2, OpReadInt] (from_bytes [1, 2, 3, 4, 5]) (Decoder 5 5 1 None) =
     Some (from_bytes [], Decoder 0 5 1 None) \<and>
   dec_size (Decoder 0 5 1 None) = dec_size (Decoder 5 5 1 None) \<and>
   dec_len (Decoder 0 5 1 None) \<le> dec_size (Decoder 0 5 1 None) \<and>
   0 \<le> dec_len (Decoder 0 5 1 None)"
proof -
  have run: "run_ops [OpRead 2, OpReadInt] (from_bytes [1, 2, 3, 4, 5]) (Decoder 5 5 1 None) =
     Some (from_bytes [], Decoder 0 5 1 None)"
    by code_simp
  from cursor_invariant[OF run] run show ?thesis by simp
qed

text \<open>
  C2, as stated, fails on the unbounded root cursor (\<open>NewDecoder\<close> over a source that is
  not a file: total size 0, the sentinel for "until the stream ends"). Its remaining
  count starts at 0 and counts down: after one successful \<open>Next\<close> over the bytes
  \<open>81 81 07\<close> it is \<open>-3\<close>, and the child of total size 1 was opened when the parent's
  remaining count was \<open>-2\<close>.
\<close>

theorem unbounded_root_counterexample:
  "run_ops [OpNext] (from_bytes [0x81, 0x81, 7]) (NewDecoder 0) =
     Some (\<lparr>seekable = False, seek_fails = False, buffered = [7], source = []\<rparr>,
           Decoder (- 3) 0 0 (Some (Decoder 1 1 0x81 None)))"
  by code_simp

text \<open>
  C7, as amended. \<open>Skip\<close>, when it returns without error, leaves remaining = 0 on a
  cursor whose remaining count was not negative, and leaves a negative remaining count
  (the unbounded root's) as it was. Whenever the unread input holds at least the bytes
  to be skipped (the cursor's and its open children's) and the source's seek does not
  fail, \<open>Skip\<close> succeeds on every reader with that unread input, seeker or not and
  whatever part of the input is buffered, and leaves the same cursor and the same
  unread input: on such input the seek path and the discard path are not told apart.
  (What \<open>Skip\<close> does on input shorter than the bytes to be skipped, or with a seek
  that fails, is not stated here.)
\<close>

theorem Skip_paths:
  "(fst (Skip r d) = None \<longrightarrow> dec_len (snd (snd (Skip r d))) = min (dec_len d) 0) \<and>
   (unread r1 = unread r2 \<and> pending d \<le> length (unread r1) \<and>
    \<not> seek_fails r1 \<and> \<not> seek_fails r2 \<longrightarrow>
      fst (Skip r1 d) = None \<and> fst (Skip r2 d) = None \<and>
      snd (snd (Skip r1 d)) = settle d \<and> snd (snd (Skip r2 d)) = settle d \<and>
      unread (fst (snd (Skip r1 d))) = drop (pending d) (unread r1) \<and>
      unread (fst (snd (Skip r2 d))) = drop (pending d) (unread r1))"
proof -
  have a: "fst (Skip r d) = None \<longrightarrow> dec_len (snd (snd (Skip r d))) = min (dec_len d) 0"
    using Skip_len[of r d] by simp
  have b: "fst (Skip r1 d) = None \<and> fst (Skip r2 d) = None \<and>
      snd (snd (Skip r1 d)) = settle d \<and> snd (snd (Skip r2 d)) = settle d \<and>
      unread (fst (snd (Skip r1 d))) = drop (pending d) (unread r1) \<and>
      unread (fst (snd (Skip r2 d))) = drop (pending d) (unread r1)"
    if "unread r1 = unread r2" "pending d \<le> length (unread r1)"
      "\<not> seek_fails r1" "\<not> seek_fails r2"
    using that Skip_enough[of d r1] Skip_enough[of d r2] by simp
  show ?thesis using a b by blast
qed

theorem Skip_paths_witness:
  "fst (Skip (from_file [1, 2, 3, 4]) (Decoder 3 3 1 None)) = None \<and>
   fst (Skip (from_bytes [1, 2, 3, 4]) (Decoder 3 3 1 None)) = None \<and>
   snd (snd (Skip (from_file [1, 2, 3, 4]) (Decoder 3 3 1 None))) = Decoder 0 3 1 None \<and>
   snd (snd (Skip (from_bytes [1, 2, 3, 4]) (Decoder 3 3 1 None))) = Decoder 0 3 1 None \<and>
   unread (fst (snd (Skip (from_file [1, 2, 3, 4]) (Decoder 3 3 1 None)))) = [4] \<and>
   unread (fst (snd (Skip (from_bytes [1, 2, 3, 4]) (Decoder 3 3 1 None)))) = [4]"
  using Skip_paths[of "from_file [1, 2, 3, 4]" "Decoder 3 3 1 None"
      "from_file [1, 2, 3, 4]" "from_bytes [1, 2, 3, 4]"]
  by (simp add: unread_def from_bytes_def from_file_def)

text \<open>
  C7, as stated, fails on the unbounded root cursor (total size 0, remaining counted down
  from 0). After one \<open>Next\<close> over the bytes \<open>81 81 07\<close> its remaining count is \<open>-3\<close>;
  \<open>Skip\<close> then skips the open child, returns without error and leaves the remaining
  count at \<open>-3\<close>, not 0.
\<close>

theorem Skip_paths_counterexample:
  "run_ops [OpNext, OpSkip] (from_bytes [0x81, 0x81, 7]) (NewDecoder 0) =
     Some (from_bytes [], Decoder (- 3) 0 0 (Some (Decoder 0 1 0x81 None)))"
  by code_simp

section \<open>Claims about the primitive readers\<close>

text \<open>
  C10, as amended. \<open>ReadBytes\<close>, and \<open>ReadString\<close>, which returns what \<open>ReadBytes\<close>
  returns, first skip the open child, as every operation of a cursor does. If that
  skip fails, its error is returned. If it succeeds, a cursor whose remaining count is
  negative or exceeds \<open>2 ^ 20\<close> gets the format error, and the reader and the cursor
  are as the skip left them: nothing of the payload is read. For a remaining count
  within the guard that the input left by the skip covers, the result is exactly the
  next \<open>remaining\<close> bytes, which are consumed, and the cursor is left with
  remaining = 0. In terms of the input alone: when the source's seek does not fail and
  the unread input covers the open child's pending bytes and the cursor's remaining
  count, which is within the guard, the result is the \<open>remaining\<close> bytes that follow
  the child's.
\<close>

theorem ReadBytes_guard:
  "ReadString r d = ReadBytes r d \<and>
   (fst (skip r d) = Some e \<longrightarrow> ReadBytes r d = (Inl e, snd (skip r d))) \<and>
   (fst (skip r d) = None \<and> (dec_len d < 0 \<or> maxBufferSize < dec_len d) \<longrightarrow>
      ReadBytes r d = (Inl ErrFormat, snd (skip r d))) \<and>
   (fst (skip r d) = None \<and> 0 \<le> dec_len d \<and> dec_len d \<le> maxBufferSize \<and>
    nat (dec_len d) \<le> length (unread (fst (snd (skip r d)))) \<longrightarrow>
      fst (ReadBytes r d) = Inr (take (nat (dec_len d)) (unread (fst (snd (skip r d))))) \<and>
      unread (fst (snd (ReadBytes r d))) =
        drop (nat (dec_len d)) (unread (fst (snd (skip r d)))) \<and>
      snd (snd (ReadBytes r d)) = set_len 0 (snd (snd (skip r d)))) \<and>
   (\<not> seek_fails r \<and> 0 \<le> dec_len d \<and> dec_len d \<le> maxBufferSize \<and>
    pending d \<le> length (unread r) \<longrightarrow>
      fst (ReadBytes r d) =
        Inr (take (nat (dec_len d)) (drop (pending d - nat (dec_len d)) (unread r))) \<and>
      unread (fst (snd (ReadBytes r d))) = drop (pending d) (unread r))"
proof -
  obtain e0 r1 d1 where sk: "skip r d = (e0, r1, d1)" by (cases "skip r d") auto
  note d1 = skip_result[OF sk]
  have str: "ReadString r d = ReadBytes r d"
    by (auto simp: ReadString_def split: prod.splits sum.splits)
  have err: "ReadBytes r d = (Inl e, snd (skip r d))" if "fst (skip r d) = Some e"
    using that sk by (simp add: ReadBytes_def)
  have guard: "ReadBytes r d = (Inl ErrFormat, snd (skip r d))"
    if "fst (skip r d) = None" "dec_len d < 0 \<or> maxBufferSize < dec_len d"
    using that sk d1(1) by (auto simp: ReadBytes_def)
  have ok: "fst (ReadBytes r d) = Inr (take (nat (dec_len d)) (unread r1)) \<and>
            unread (fst (snd (ReadBytes r d))) = drop (nat (dec_len d)) (unread r1) \<and>
            snd (snd (ReadBytes r d)) = set_len 0 d1"
    if h: "e0 = None" "0 \<le> dec_len d" "dec_len d \<le> maxBufferSize"
      "nat (dec_len d) \<le> length (unread r1)"
  proof -
    have idle: "idle d1" using d1(5) h(1) by simp
    obtain e b r2 d2 where rd: "Read (nat (dec_len d1)) r1 d1 = (e, b, r2, d2)"
      by (cases "Read (nat (dec_len d1)) r1 d1") auto
    have "0 \<le> dec_len d1" "nat (dec_len d1) \<le> length (unread r1)" using h d1(1) by simp_all
    from Read_idle_enough[OF idle this] rd d1(1)
    have "e = None" "b = take (nat (dec_len d)) (unread r1)"
      "unread r2 = drop (nat (dec_len d)) (unread r1)" "d2 = set_len 0 d1"
      by simp_all
    then show ?thesis using sk h d1(1) rd
      by (simp add: ReadBytes_def)
  qed
  have inp: "fst (ReadBytes r d) =
        Inr (take (nat (dec_len d)) (drop (pending d - nat (dec_len d)) (unread r))) \<and>
      unread (fst (snd (ReadBytes r d))) = drop (pending d) (unread r)"
    if h: "\<not> seek_fails r" "0 \<le> dec_len d" "dec_len d \<le> maxBufferSize"
      "pending d \<le> length (unread r)"
  proof -
    have le: "pending d - nat (dec_len d) \<le> length (unread r)" using h(4) by simp
    note s = skip_enough[OF le h(1)]
    have e0: "e0 = None" and u1: "unread r1 = drop (pending d - nat (dec_len d)) (unread r)"
      using s(1,2) sk by simp_all
    have ge: "nat (dec_len d) \<le> pending d" using pending_split[of d] by simp
    then have cov: "nat (dec_len d) \<le> length (unread r1)" using u1 h(4) by simp
    have "drop (nat (dec_len d)) (unread r1) = drop (pending d) (unread r)"
      using u1 ge by simp
    then show ?thesis using ok[OF e0 h(2,3) cov] u1 by simp
  qed
  show ?thesis using str err guard ok inp sk by simp
qed

theorem ReadBytes_guard_witness:
  "ReadBytes (from_bytes [1, 2, 3, 4]) (Decoder (2 ^ 20 + 1) (2 ^ 20 + 1) 0x82 None) =
     (Inl ErrFormat, from_bytes [1, 2, 3, 4], Decoder (2 ^ 20 + 1) (2 ^ 20 + 1) 0x82 None) \<and>
   fst (ReadBytes (from_bytes [1, 2, 3, 4]) (Decoder 3 3 0x82 None)) = Inr [1, 2, 3] \<and>
   fst (ReadString (from_bytes [1, 2, 3, 4]) (Decoder 3 3 0x82 None)) = Inr [1, 2, 3] \<and>
   unread (fst (snd (ReadBytes (from_bytes [1, 2, 3, 4]) (Decoder 3 3 0x82 None)))) = [4] \<and>
   snd (snd (ReadBytes (from_bytes [1, 2, 3, 4]) (Decoder 3 3 0x82 None))) = Decoder 0 3 0x82 None \<and>
   ReadBytes (from_bytes [1, 2]) (Decoder 9 9 0x81 (Some (Decoder 5 5 0x82 None))) =
     (Inl EOF, from_bytes [], Decoder 9 9 0x81 (Some (Decoder 5 5 0x82 None))) \<and>
   fst (ReadBytes (from_bytes [1, 2, 3, 4]) (Decoder 2 9 0x81 (Some (Decoder 1 5 0x82 None)))) =
     Inr [2, 3]"
proof -
  have s1: "skip (from_bytes [1, 2, 3, 4]) (Decoder (2 ^ 20 + 1) (2 ^ 20 + 1) 0x82 None) =
      (None, from_bytes [1, 2, 3, 4], Decoder (2 ^ 20 + 1) (2 ^ 20 + 1) 0x82 None)"
    by (simp add: skip_def)
  have s2: "skip (from_bytes [1, 2, 3, 4]) (Decoder 3 3 0x82 None) =
      (None, from_bytes [1, 2, 3, 4], Decoder 3 3 0x82 None)"
    by (simp add: skip_def)
  have s3: "skip (from_bytes [1, 2]) (Decoder 9 9 0x81 (Some (Decoder 5 5 0x82 None))) =
      (Some EOF, from_bytes [], Decoder 9 9 0x81 (Some (Decoder 5 5 0x82 None)))"
    by code_simp
  show ?thesis
    using ReadBytes_guard[of "from_bytes [1, 2, 3, 4]"
        "Decoder (2 ^ 20 + 1) (2 ^ 20 + 1) 0x82 None" EOF]
      ReadBytes_guard[of "from_bytes [1, 2, 3, 4]" "Decoder 3 3 0x82 None" EOF]
      ReadBytes_guard[of "from_bytes [1, 2]" "Decoder 9 9 0x81 (Some (Decoder 5 5 0x82 None))" EOF]
      ReadBytes_guard[of "from_bytes [1, 2, 3, 4]" "Decoder 2 9 0x81 (Some (Decoder 1 5 0x82 None))" EOF]
      s1 s2 s3
    by (simp add: maxBufferSize_def unread_def from_bytes_def set_len_def)
qed

text \<open>
  C10, as stated, fails on a cursor with an open child that cannot be skipped. A cursor
  of \<open>2 ^ 20 + 10\<close> bytes over the four bytes \<open>82 85 01 02\<close> opens the child \<open>82\<close> of
  declared size 5 and is left with \<open>2 ^ 20 + 3\<close> bytes remaining, more than the guard
  allows. \<open>ReadBytes\<close> on it skips the child first, of which two bytes exist, and
  returns the end-of-input error of that skip, not the format error.
\<close>

theorem ReadBytes_pending_child_counterexample:
  "Next (from_bytes [0x82, 0x85, 1, 2]) (Decoder (2 ^ 20 + 10) (2 ^ 20 + 10) 1 None) =
     (Inr (0x82, Some (Decoder 5 5 0x82 None)),
      \<lparr>seekable = False, seek_fails = False, buffered = [1, 2], source = []\<rparr>,
      Decoder (2 ^ 20 + 3) (2 ^ 20 + 10) 1 (Some (Decoder 5 5 0x82 None))) \<and>
   maxBufferSize < 2 ^ 20 + 3 \<and>
   ReadBytes \<lparr>seekable = False, seek_fails = False, buffered = [1, 2], source = []\<rparr>
       (Decoder (2 ^ 20 + 3) (2 ^ 20 + 10) 1 (Some (Decoder 5 5 0x82 None))) =
     (Inl EOF, from_bytes [],
      Decoder (2 ^ 20 + 3) (2 ^ 20 + 10) 1 (Some (Decoder 5 5 0x82 None)))"
  by code_simp

section \<open>Claims about the schema-driven decoder\<close>

text \<open>
  C5. For every size-bounded container cursor with remaining > 0 whose source is
  exhausted at an element boundary (no unread byte is left when the loop asks for the
  next child), \<open>Next\<close> returns the end-of-input signal, and the decode loop of
  \<open>typeCodec.UnmarshalEBML\<close> takes it for the end of the container: it returns without
  error, with the fields as populated so far. A loop iteration is enough for it, so
  two units of the call bound are. At an element boundary the child opened before has
  nothing left to skip (\<open>idle\<close>); the statement also covers a child cut short by the
  end of the source, provided the source's seek does not fail.
\<close>

theorem exhausted_source_ends_container:
  assumes "0 < dec_size d" and "0 < dec_len d" and "unread r = []"
    and "idle d \<or> \<not> seek_fails r"
    and "newStructInfo fs = Inr ids"
  shows "typeCodec_loop (Suc k) ids fs r d = Some (None, fs, snd (Next r d)) \<and>
         UnmarshalEBML (Suc (Suc k)) fs r d = Some (None, fs, snd (Next r d))"
proof -
  obtain x r1 d1 where n: "Next r d = (x, r1, d1)" by (cases "Next r d") auto
  then have "x = Inl EOF" using Next_exhausted(1)[OF assms(3,4)] by simp
  then show ?thesis using n assms(5) by simp
qed

theorem exhausted_source_witness:
  "UnmarshalEBML 2 [(Tag 0x82 [], VInt KInt64 1), (Tag 0x83 [], VInt KInt64 0)]
     (from_bytes []) (Decoder 5 10 1 None) =
   Some (None, [(Tag 0x82 [], VInt KInt64 1), (Tag 0x83 [], VInt KInt64 0)],
         from_bytes [], Decoder 5 10 1 None)"
proof -
  have u: "unread (from_bytes []) = []" by (simp add: unread_def from_bytes_def)
  have i: "newStructInfo [(Tag 0x82 [], VInt KInt64 1), (Tag 0x83 [], VInt KInt64 0)] =
      Inr [0x82 \<mapsto> \<lparr>fi_id = 0x82, fi_index = 0, fi_seq = []\<rparr>,
           0x83 \<mapsto> \<lparr>fi_id = 0x83, fi_index = 1, fi_seq = []\<rparr>]"
    by (simp add: newStructInfo_def)
  have n: "snd (Next (from_bytes []) (Decoder 5 10 1 None)) = (from_bytes [], Decoder 5 10 1 None)"
    by code_simp
  have s: "0 < dec_size (Decoder 5 10 1 None)" "0 < dec_len (Decoder 5 10 1 None)" by simp_all
  have f: "idle (Decoder 5 10 1 None) \<or> \<not> seek_fails (from_bytes [])"
    by (simp add: idle_def)
  show ?thesis
    using exhausted_source_ends_container[OF s u f i, of 0] n by (simp add: numeral_2_eq_2)
qed




text \<open>
  C9. The claim: two streams that differ only in the payload bytes of a child whose id
  matches no field descriptor decode to the same value tree. The two streams below hold
  the children \<open>K\<close> (id \<open>81\<close>, size 4, payload \<open>82 84 01 02\<close>) and \<open>U\<close> (id \<open>EC\<close>, known
  to no descriptor, size 3) of a container of schema \<open>Q\<close>, and differ in the first
  payload byte of \<open>U\<close> only (\<open>83\<close> against \<open>EC\<close>). Inside \<open>K\<close> the element \<open>X\<close> declares 4
  bytes where 2 remain; \<open>Next\<close> accepts it (the defect of C1), \<open>ReadBytes\<close> reads on
  through the header of \<open>U\<close>, and the container's loop takes the payload of \<open>U\<close> for
  the next header: the first stream sets \<open>N = 7\<close>, the second leaves \<open>N = 0\<close>.
\<close>

theorem unknown_payload_read_as_header:
  "outcome (UnmarshalEBML 20 Q_fields
       (from_bytes [0x81, 0x84, 0x82, 0x84, 1, 2, 0xEC, 0x83, 0x83, 0x81, 7]) (NewDecoder 0)) =
     Some (None,
       [(Tag 0x81 [], VPtr T_type (Some (VStruct [(Tag 0x82 [], VSlice (TUint KUint8)
           [VUint KUint8 1, VUint KUint8 2, VUint KUint8 0xEC, VUint KUint8 0x83])]))),
        (Tag 0x83 [], VInt KInt64 7)]) \<and>
   outcome (UnmarshalEBML 20 Q_fields
       (from_bytes [0x81, 0x84, 0x82, 0x84, 1, 2, 0xEC, 0x83, 0xEC, 0x81, 7]) (NewDecoder 0)) =
     Some (None,
       [(Tag 0x81 [], VPtr T_type (Some (VStruct [(Tag 0x82 [], VSlice (TUint KUint8)
           [VUint KUint8 1, VUint KUint8 2, VUint KUint8 0xEC, VUint KUint8 0x83])]))),
        (Tag 0x83 [], VInt KInt64 0)])"
  by code_simp

text \<open>
  X1. What holds of C9 by design, one child at a time. Take two readers of one shape
  whose seek (if they are seekers) does not fail, and a cursor without pending child, and let the unread input of both start with the
  same well-formed header, an id and a positive size that the cursor's bounds admit,
  followed by payloads of the declared length that may differ in every byte, followed
  by the same bytes. If the id matches no field descriptor (in an id-path loop: is not
  the id looked for), the decode loop gives the same result on both readers: the same
  error or none, the same value tree, the same reader and cursor at the end. The
  payload of the unknown child is skipped and never looked at.
\<close>

theorem unknown_child_not_inspected:
  assumes "same_shape rA rB" and "idle d"
    and "leading_width m1 w1" and "length bs1 = w1 - 1"
    and "leading_width m2 w2" and "length bs2 = w2 - 1"
    and "unread rA = m1 # bs1 @ m2 # bs2 @ pA @ rest"
    and "unread rB = m1 # bs1 @ m2 # bs2 @ pB @ rest"
    and "be_val (m2 # bs2) - 2 ^ (7 * w2) = int (length pA)"
    and "length pB = length pA" and "0 < length pA"
    and "dec_size d \<le> 0 \<or> int (w1 + w2) \<le> dec_len d \<and> int (length pA) \<le> dec_size d"
    and "\<not> seek_fails rA"
  shows "(ids (be_val (m1 # bs1)) = None \<longrightarrow>
            typeCodec_loop (Suc k) ids fs rA d = typeCodec_loop (Suc k) ids fs rB d) \<and>
         (be_val (m1 # bs1) \<noteq> hd seq \<longrightarrow>
            decodeSeq (Suc k) seq v rA d = decodeSeq (Suc k) seq v rB d)"
proof -
  let ?i = "be_val (m1 # bs1)"
  define sz where "sz = int (length pA)"
  let ?c = "Decoder sz sz ?i None"
  let ?d' = "set_elem (Some ?c) (set_len (dec_len d - int (w1 + w2) - sz) d)"
  let ?rA = "vint_reader w2 (vint_reader w1 rA)"
  let ?rB = "vint_reader w2 (vint_reader w1 rB)"
  have szv: "sz = be_val (m2 # bs2) - 2 ^ (7 * w2)" using assms(9) by (simp add: sz_def)
  have pos: "0 < sz" using assms(11) by (simp add: sz_def)
  have bound: "dec_size d \<le> 0 \<or> int (w1 + w2) \<le> dec_len d \<and> sz \<le> dec_size d"
    using assms(12) by (simp add: sz_def)
  have uA: "unread rA = m1 # bs1 @ m2 # bs2 @ (pA @ rest)" using assms(7) by simp
  have uB: "unread rB = m1 # bs1 @ m2 # bs2 @ (pB @ rest)" using assms(8) by simp
  note nA = Next_valid[OF assms(2,3,4,5,6) uA szv pos bound]
  note nB = Next_valid[OF assms(2,3,4,5,6) uB szv pos bound]
  have sh: "shape ?rA = shape ?rB"
    using assms(1) by (intro shape_vint_reader) (simp add: same_shape_shape)
  have leA: "nat (dec_len ?c) \<le> length (unread ?rA)" using nA(2) by (simp add: sz_def)
  have leB: "nat (dec_len ?c) \<le> length (unread ?rB)" using nB(2) assms(10) by (simp add: sz_def)
  have nfA: "\<not> seek_fails ?rA" using assms(13) by simp
  have nfB: "\<not> seek_fails ?rB" using assms(1,13) by (simp add: same_shape_def)
  note sA = Skip_own_enough[OF leA nfA]
  note sB = Skip_own_enough[OF leB nfB]
  have "unread (fst (snd (Skip_own ?rA ?c))) = unread (fst (snd (Skip_own ?rB ?c)))"
    using sA(2) sB(2) nA(2) nB(2) assms(10) by (simp add: sz_def)
  then have req: "fst (snd (Skip_own ?rA ?c)) = fst (snd (Skip_own ?rB ?c))"
    using shape_Skip_own[OF sh, of ?c] by (intro reader_eqI)
  have skA: "Skip ?rA ?c = (None, fst (snd (Skip_own ?rA ?c)), set_len (min (dec_len ?c) 0) ?c)"
    using sA(1,3) by (cases "Skip_own ?rA ?c") simp
  have skB: "Skip ?rB ?c = (None, fst (snd (Skip_own ?rA ?c)), set_len (min (dec_len ?c) 0) ?c)"
    using sB(1,3) req by (cases "Skip_own ?rB ?c") simp
  show ?thesis using nA(1) nB(1) skA skB by simp
qed

theorem unknown_child_witness:
  "typeCodec_loop (Suc 9)
     [0x81 \<mapsto> \<lparr>fi_id = 0x81, fi_index = 0, fi_seq = []\<rparr>,
      0x83 \<mapsto> \<lparr>fi_id = 0x83, fi_index = 1, fi_seq = []\<rparr>]
     Q_fields (from_bytes [0xEC, 0x82, 1, 2, 0x83, 0x81, 7]) (NewDecoder 0) =
   typeCodec_loop (Suc 9)
     [0x81 \<mapsto> \<lparr>fi_id = 0x81, fi_index = 0, fi_seq = []\<rparr>,
      0x83 \<mapsto> \<lparr>fi_id = 0x83, fi_index = 1, fi_seq = []\<rparr>]
     Q_fields (from_bytes [0xEC, 0x82, 9, 9, 0x83, 0x81, 7]) (NewDecoder 0) \<and>
   decodeSeq (Suc 9) [0x83] (VInt KInt64 0) (from_bytes [0xEC, 0x82, 1, 2, 0x83, 0x81, 7])
     (NewDecoder 0) =
   decodeSeq (Suc 9) [0x83] (VInt KInt64 0) (from_bytes [0xEC, 0x82, 9, 9, 0x83, 0x81, 7])
     (NewDecoder 0)"
proof -
  have s: "same_shape (from_bytes [0xEC, 0x82, 1, 2, 0x83, 0x81, 7])
      (from_bytes [0xEC, 0x82, 9, 9, 0x83, 0x81, 7])"
    by (simp add: same_shape_def from_bytes_def)
  have i: "idle (NewDecoder 0)" by (simp add: idle_def NewDecoder_def)
  have l1: "leading_width 0xEC 1" and l2: "leading_width 0x82 1"
    by (simp_all add: leading_width_def)
  have n: "length ([] :: byte list) = 1 - 1" by simp
  have uA: "unread (from_bytes [0xEC, 0x82, 1, 2, 0x83, 0x81, 7]) =
      0xEC # [] @ 0x82 # [] @ [1, 2] @ [0x83, 0x81, 7]"
    by (simp add: unread_def from_bytes_def)
  have uB: "unread (from_bytes [0xEC, 0x82, 9, 9, 0x83, 0x81, 7]) =
      0xEC # [] @ 0x82 # [] @ [9, 9] @ [0x83, 0x81, 7]"
    by (simp add: unread_def from_bytes_def)
  have z: "be_val (0x82 # []) - 2 ^ (7 * 1) = int (length [1, 2 :: byte])" by simp
  have p: "length [9, 9 :: byte] = length [1, 2 :: byte]" "0 < length [1, 2 :: byte]"
    by simp_all
  have b: "dec_size (NewDecoder 0) \<le> 0 \<or>
      int (1 + 1) \<le> dec_len (NewDecoder 0) \<and> int (length [1, 2 :: byte]) \<le> dec_size (NewDecoder 0)"
    by (simp add: NewDecoder_def)
  have f: "\<not> seek_fails (from_bytes [0xEC, 0x82, 1, 2, 0x83, 0x81, 7])"
    by (simp add: from_bytes_def)
  show ?thesis
    using unknown_child_not_inspected[OF s i l1 n l2 n uA uB z p b f,
        where ids = "[0x81 \<mapsto> \<lparr>fi_id = 0x81, fi_index = 0, fi_seq = []\<rparr>,
             0x83 \<mapsto> \<lparr>fi_id = 0x83, fi_index = 1, fi_seq = []\<rparr>]"
          and seq = "[0x83]" and k = 9 and fs = Q_fields and v = "VInt KInt64 0"]
    by simp
qed

end
